theory Spec2Isabelle
  imports Complex_Main "HOL-Library.Multiset" "HOL-Library.Code_Target_Nat"
begin

section \<open>JavaScript values and arrays\<close>

text \<open>
  The queue of \<^verbatim>\<open>src/src/PriorityQueue.ts\<close> keeps all of its state in three JavaScript
  arrays and four numbers. Priorities are JavaScript numbers; the model takes the
  real-valued ones (no NaN, no infinity), which the code only stores and compares.
  A read of an array position that was never written gives \<^verbatim>\<open>undefined\<close>, and a
  comparison with \<^verbatim>\<open>undefined\<close> is false: a value that may be undefined is an
  \<open>option\<close>, with \<open>None\<close> for \<^verbatim>\<open>undefined\<close>.
\<close>

type_synonym number = real

definition MAX_SAFE_INTEGER :: nat where
  "MAX_SAFE_INTEGER = 9007199254740991"

text \<open>The comparisons \<^verbatim>\<open><\<close>, \<^verbatim>\<open>>\<close> and \<^verbatim>\<open><=\<close> on numbers that may be undefined.\<close>

fun js_lt :: "number option \<Rightarrow> number option \<Rightarrow> bool" where
  "js_lt (Some a) (Some b) = (a < b)"
| "js_lt _ _ = False"

fun js_gt :: "number option \<Rightarrow> number option \<Rightarrow> bool" where
  "js_gt (Some a) (Some b) = (a > b)"
| "js_gt _ _ = False"

fun js_le :: "number option \<Rightarrow> number option \<Rightarrow> bool" where
  "js_le (Some a) (Some b) = (a \<le> b)"
| "js_le _ _ = False"

text \<open>
  A JavaScript array is a list of cells. A cell is a hole (a position below the length
  that was never written) or holds a value, which may itself be \<^verbatim>\<open>undefined\<close>.
  Writing past the end extends the array and leaves holes in between.
\<close>

datatype 'v cell = Hole | Cell "'v option"

type_synonym 'v jsarray = "'v cell list"

fun cell_val :: "'v cell \<Rightarrow> 'v option" where
  "cell_val Hole = None"
| "cell_val (Cell v) = v"

definition js_get :: "'v jsarray \<Rightarrow> nat \<Rightarrow> 'v option" where
  "js_get xs i = (if i < length xs then cell_val (xs ! i) else None)"

definition js_set :: "'v jsarray \<Rightarrow> nat \<Rightarrow> 'v option \<Rightarrow> 'v jsarray" where
  "js_set xs i v =
     (if i < length xs then xs[i := Cell v]
      else xs @ replicate (i - length xs) Hole @ [Cell v])"

text \<open>
  \<^verbatim>\<open>[a[i], a[j]] = [a[j], a[i]]\<close>: both reads happen before the two writes.
\<close>

definition js_swap :: "'v jsarray \<Rightarrow> nat \<Rightarrow> nat \<Rightarrow> 'v jsarray" where
  "js_swap xs i j = (let x = js_get xs j; y = js_get xs i in js_set (js_set xs i x) j y)"

text \<open>
  \<^verbatim>\<open>a[key]\<close> with a key that is a number or undefined: a non-negative integer is an
  array index, anything else names an ordinary property of the array object.
  (Indices are taken below JavaScript's array limit \<open>2^32 - 1\<close>.)
\<close>

definition array_index :: "number option \<Rightarrow> nat option" where
  "array_index key =
     (case key of
        None \<Rightarrow> None
      | Some r \<Rightarrow> if 0 \<le> r \<and> r = of_int \<lfloor>r\<rfloor> then Some (nat \<lfloor>r\<rfloor>) else None)"

section \<open>The queue's state\<close>

record 'a IElementPriorityPair =
  element :: 'a
  priority :: number

text \<open>
  The fields of class \<^verbatim>\<open>PriorityQueue\<close>. An element is a value of type \<open>'a\<close>; what
  a method returns or an array holds is an \<open>'a option\<close>, since it may be undefined. \<open>heap\<close> is the flat array of the source:
  position \<open>2 * i\<close> holds the priority of heap node \<open>i\<close> and position \<open>2 * i + 1\<close> the
  index into \<open>elems\<close> of its element. \<open>elems_props\<close> holds the properties of the
  \<open>elems\<close> array object that are not array indices (a write \<^verbatim>\<open>_elems[undefined] = e\<close>
  creates one).
\<close>

record 'a pq =
  heap :: "number jsarray"
  k :: nat
  heap_size :: nat
  elems :: "'a jsarray"
  elems_props :: "number option \<Rightarrow> 'a option"
  elems_size :: nat
  exited_indexes :: "number jsarray"
  exited_indexes_count :: nat

datatype error = InvalidOperationException string

definition elems_get :: "'a pq \<Rightarrow> number option \<Rightarrow> 'a option" where
  "elems_get q key =
     (case array_index key of
        Some i \<Rightarrow> js_get (elems q) i
      | None \<Rightarrow> elems_props q key)"

definition elems_set :: "'a pq \<Rightarrow> number option \<Rightarrow> 'a option \<Rightarrow> 'a pq" where
  "elems_set q key v =
     (case array_index key of
        Some i \<Rightarrow> q\<lparr>elems := js_set (elems q) i v\<rparr>
      | None \<Rightarrow> q\<lparr>elems_props := (elems_props q)(key := v)\<rparr>)"

definition count_pq :: "'a pq \<Rightarrow> nat" where
  "count_pq q = heap_size q"

text \<open>
  \<^verbatim>\<open>unorderedItems\<close>: \<^verbatim>\<open>forEach\<close> visits the cells of \<open>elems\<close> that are not holes,
  in index order, and keeps those whose index is not among the first
  \<open>exited_indexes_count\<close> entries of \<open>exited_indexes\<close>.
\<close>

definition exited_set :: "'a pq \<Rightarrow> number option set" where
  "exited_set q = set (map cell_val (take (exited_indexes_count q) (exited_indexes q)))"

fun forEach_items :: "number option set \<Rightarrow> nat \<Rightarrow> 'a jsarray \<Rightarrow> 'a option list" where
  "forEach_items ex i [] = []"
| "forEach_items ex i (Hole # cs) = forEach_items ex (Suc i) cs"
| "forEach_items ex i (Cell v # cs) =
     (if Some (real i) \<notin> ex then v # forEach_items ex (Suc i) cs
      else forEach_items ex (Suc i) cs)"

definition unorderedItems :: "'a pq \<Rightarrow> 'a option list" where
  "unorderedItems q = forEach_items (exited_set q) 0 (elems q)"

section \<open>Heap maintenance\<close>

definition swap_nodes :: "'a pq \<Rightarrow> nat \<Rightarrow> nat \<Rightarrow> 'a pq" where
  "swap_nodes q i j =
     q\<lparr>heap := js_swap (js_swap (heap q) (i * 2) (j * 2)) (i * 2 + 1) (j * 2 + 1)\<rparr>"

text \<open>
  Node \<open>i\<close> of the heap: its priority, its link into \<open>elems\<close>, and the element the
  link leads to.
\<close>

definition prio_at :: "'a pq \<Rightarrow> nat \<Rightarrow> number option" where
  "prio_at q i = js_get (heap q) (i * 2)"

definition link_at :: "'a pq \<Rightarrow> nat \<Rightarrow> number option" where
  "link_at q i = js_get (heap q) (i * 2 + 1)"

definition elem_at :: "'a pq \<Rightarrow> nat \<Rightarrow> 'a option" where
  "elem_at q i = elems_get q (link_at q i)"

text \<open>
  \<^verbatim>\<open>_restoreDown\<close>, first half of the loop body: \<open>child_index q index i\<close> is
  \<^verbatim>\<open>child[i]\<close>, and \<open>find_min_child\<close> runs the scan over \<open>i = 1..k\<close>, returning
  \<^verbatim>\<open>(min_child, min_child_index)\<close>.
\<close>

definition child_index :: "'a pq \<Rightarrow> nat \<Rightarrow> nat \<Rightarrow> nat" where
  "child_index q index i =
     (if k q * index + i < heap_size q then k q * index + i else MAX_SAFE_INTEGER)"

definition scan_child :: "'a pq \<Rightarrow> nat \<Rightarrow> number \<times> nat \<Rightarrow> nat \<Rightarrow> number \<times> nat" where
  "scan_child q index m i =
     (let c = child_index q index i in
      if c \<noteq> MAX_SAFE_INTEGER \<and> js_lt (js_get (heap q) (c * 2)) (Some (fst m))
      then (case js_get (heap q) (c * 2) of Some p \<Rightarrow> (p, c) | None \<Rightarrow> m)
      else m)"

definition find_min_child :: "'a pq \<Rightarrow> nat \<Rightarrow> number \<times> nat" where
  "find_min_child q index =
     foldl (scan_child q index) (real MAX_SAFE_INTEGER, 0) [1 ..< k q + 1]"

lemma scan_child_cases:
  "scan_child q index m i = m \<or>
   (\<exists>p. scan_child q index m i = (p, k q * index + i) \<and> p < fst m \<and>
        k q * index + i < heap_size q)"
  by (auto simp: scan_child_def child_index_def Let_def split: option.splits)

lemma find_min_child_fold:
  assumes "fst m \<le> real MAX_SAFE_INTEGER"
    and "fst m < real MAX_SAFE_INTEGER \<longrightarrow> index < snd m \<and> snd m < heap_size q"
    and "\<forall>i \<in> set ns. 1 \<le> i"
    and "1 \<le> k q"
  shows "fst (foldl (scan_child q index) m ns) \<le> real MAX_SAFE_INTEGER \<and>
         (fst (foldl (scan_child q index) m ns) < real MAX_SAFE_INTEGER \<longrightarrow>
            index < snd (foldl (scan_child q index) m ns) \<and>
            snd (foldl (scan_child q index) m ns) < heap_size q)"
  using assms
proof (induction ns arbitrary: m)
  case Nil
  then show ?case by simp
next
  case (Cons i ns)
  have i1: "1 \<le> i" using Cons.prems(3) by simp
  have lt: "index < k q * index + i"
  proof -
    have "index \<le> k q * index" using Cons.prems(4) by simp
    then show ?thesis using i1 by linarith
  qed
  from scan_child_cases [of q index m i]
  have step: "fst (scan_child q index m i) \<le> real MAX_SAFE_INTEGER \<and>
      (fst (scan_child q index m i) < real MAX_SAFE_INTEGER \<longrightarrow>
         index < snd (scan_child q index m i) \<and> snd (scan_child q index m i) < heap_size q)"
  proof
    assume "scan_child q index m i = m"
    then show ?thesis using Cons.prems(1,2) by simp
  next
    assume "\<exists>p. scan_child q index m i = (p, k q * index + i) \<and> p < fst m \<and>
        k q * index + i < heap_size q"
    then obtain p where p: "scan_child q index m i = (p, k q * index + i)" "p < fst m"
      "k q * index + i < heap_size q" by blast
    then show ?thesis using Cons.prems(1) lt by simp
  qed
  have "fst (foldl (scan_child q index) (scan_child q index m i) ns) \<le> real MAX_SAFE_INTEGER \<and>
         (fst (foldl (scan_child q index) (scan_child q index m i) ns) < real MAX_SAFE_INTEGER \<longrightarrow>
            index < snd (foldl (scan_child q index) (scan_child q index m i) ns) \<and>
            snd (foldl (scan_child q index) (scan_child q index m i) ns) < heap_size q)"
    using Cons.IH [of "scan_child q index m i"] step Cons.prems(3,4) by simp
  then show ?case by simp
qed

lemma find_min_child_bounds:
  assumes "fst (find_min_child q index) \<noteq> real MAX_SAFE_INTEGER"
  shows "index < snd (find_min_child q index) \<and> snd (find_min_child q index) < heap_size q"
proof (cases "k q = 0")
  case True
  then show ?thesis using assms by (simp add: find_min_child_def)
next
  case False
  then have k1: "1 \<le> k q" by simp
  have "fst (find_min_child q index) \<le> real MAX_SAFE_INTEGER \<and>
        (fst (find_min_child q index) < real MAX_SAFE_INTEGER \<longrightarrow>
           index < snd (find_min_child q index) \<and> snd (find_min_child q index) < heap_size q)"
    unfolding find_min_child_def
    by (rule find_min_child_fold) (use k1 in auto)
  then show ?thesis using assms by linarith
qed

lemma swap_nodes_fields [simp]:
  "heap_size (swap_nodes q i j) = heap_size q"
  "k (swap_nodes q i j) = k q"
  "elems (swap_nodes q i j) = elems q"
  "elems_props (swap_nodes q i j) = elems_props q"
  "elems_size (swap_nodes q i j) = elems_size q"
  "exited_indexes (swap_nodes q i j) = exited_indexes q"
  "exited_indexes_count (swap_nodes q i j) = exited_indexes_count q"
  by (simp_all add: swap_nodes_def)

text \<open>
  \<^verbatim>\<open>_restoreDown(index)\<close>. The loop ends when the scan leaves \<^verbatim>\<open>min_child\<close> at
  \<^verbatim>\<open>Number.MAX_SAFE_INTEGER\<close>; otherwise it swaps the node with its smallest child when
  the node's priority is greater, and goes on from that child in either case.
\<close>

function restoreDown :: "'a pq \<Rightarrow> nat \<Rightarrow> 'a pq" where
  "restoreDown q index =
     (let m = find_min_child q index in
      if fst m = real MAX_SAFE_INTEGER then q
      else restoreDown
             (if js_gt (js_get (heap q) (index * 2)) (js_get (heap q) (snd m * 2))
              then swap_nodes q index (snd m) else q)
             (snd m))"
  by pat_completeness auto
termination
proof (relation "measure (\<lambda>(q, index). heap_size q - index)")
  show "wf (measure (\<lambda>(q :: 'a pq, index). heap_size q - index))" by simp
next
  fix q :: "'a pq" and index :: nat and m :: "number \<times> nat"
  assume m: "m = find_min_child q index" and ne: "fst m \<noteq> real MAX_SAFE_INTEGER"
  have "index < snd m \<and> snd m < heap_size q"
    using find_min_child_bounds [of q index] m ne by simp
  then show "((if js_gt (js_get (heap q) (index * 2)) (js_get (heap q) (snd m * 2))
               then swap_nodes q index (snd m) else q, snd m), q, index)
             \<in> measure (\<lambda>(q, index). heap_size q - index)"
    by auto
qed

declare restoreDown.simps [simp del]

text \<open>
  \<^verbatim>\<open>_restoreUp(index)\<close>. \<^verbatim>\<open>parent = Math.floor((index - 1) / k)\<close> is \<open>-1\<close> at the root.
  With \<open>k = 0\<close> the quotient is an infinity or NaN: the loop is not entered, or reads
  \<^verbatim>\<open>_heap[Infinity]\<close>, which is undefined, and breaks; the heap is unchanged either way.
\<close>

function restoreUp :: "'a pq \<Rightarrow> nat \<Rightarrow> 'a pq" where
  "restoreUp q index =
     (if k q = 0 then q
      else
        let parent = (int index - 1) div int (k q) in
        if parent \<ge> 0 then
          if js_lt (js_get (heap q) (index * 2)) (js_get (heap q) (nat parent * 2))
          then restoreUp (swap_nodes q index (nat parent)) (nat parent)
          else q
        else q)"
  by pat_completeness auto
termination
proof (relation "measure (\<lambda>(q, index). index)")
  show "wf (measure (\<lambda>(q :: 'a pq, index :: nat). index))" by simp
next
  fix q :: "'a pq" and index :: nat and parent :: int
  assume k0: "k q \<noteq> 0" and p: "parent = (int index - 1) div int (k q)" and ge: "0 \<le> parent"
  have "index \<noteq> 0"
  proof
    assume "index = 0"
    then have "parent = (- 1) div int (k q)" using p by simp
    moreover have "(- 1) div int (k q) < 0" using k0 by (simp add: div_eq_minus1)
    ultimately show False using ge by simp
  qed
  then have pos: "0 \<le> int index - 1" by simp
  have "(int index - 1) div int (k q) \<le> int index - 1"
  proof (cases "int index - 1 = 0")
    case True
    then show ?thesis by simp
  next
    case False
    then have "0 < int index - 1" using pos by simp
    then show ?thesis by (rule int_div_le_self)
  qed
  then have "nat parent < index" using p ge by linarith
  then show "((swap_nodes q index (nat parent), nat parent), q, index)
             \<in> measure (\<lambda>(q, index). index)"
    by simp
qed

declare restoreUp.simps [simp del]

section \<open>The public operations\<close>

text \<open>
  \<^verbatim>\<open>_addElem(elem)\<close> returns the changed queue and the index it stored the element at
  (a number, or undefined when the recycled entry read from \<open>exited_indexes\<close> is).
\<close>

definition addElem :: "'a pq \<Rightarrow> 'a \<Rightarrow> 'a pq \<times> number option" where
  "addElem q elem =
     (if exited_indexes_count q > 0 then
        let q1 = q\<lparr>exited_indexes_count := exited_indexes_count q - 1\<rparr>;
            index = js_get (exited_indexes q1) (exited_indexes_count q1)
        in (elems_set q1 index (Some elem), index)
      else
        let index = Some (real (elems_size q));
            q1 = q\<lparr>elems_size := elems_size q + 1\<rparr>
        in (elems_set q1 index (Some elem), index))"

definition clear :: "'a pq \<Rightarrow> 'a pq" where
  "clear q =
     q\<lparr>heap := [], heap_size := 0, elems := [], elems_props := (\<lambda>_. None), elems_size := 0,
       exited_indexes := [], exited_indexes_count := 0\<rparr>"

text \<open>
  \<^verbatim>\<open>shrink()\<close>: the loop fills a new \<open>heap\<close> and a new \<open>elems\<close> array for
  \<open>i = 0 .. heap_size - 1\<close>, reading the old ones.
\<close>

definition shrink_step :: "'a pq \<Rightarrow> number jsarray \<times> 'a jsarray \<Rightarrow> nat \<Rightarrow> number jsarray \<times> 'a jsarray" where
  "shrink_step q acc i =
     (let heap1 = js_set (fst acc) (i * 2) (js_get (heap q) (i * 2));
          elems1 = js_set (snd acc) i (elems_get q (js_get (heap q) (i * 2 + 1)));
          heap2 = js_set heap1 (i * 2 + 1) (Some (real i))
      in (heap2, elems1))"

definition shrink :: "'a pq \<Rightarrow> 'a pq" where
  "shrink q =
     (let acc = foldl (shrink_step q) ([], []) [0 ..< heap_size q] in
      q\<lparr>heap := fst acc, elems := snd acc, elems_props := (\<lambda>_. None),
        elems_size := heap_size q, exited_indexes := [], exited_indexes_count := 0\<rparr>)"

definition enqueue :: "'a pq \<Rightarrow> 'a \<Rightarrow> number \<Rightarrow> 'a pq" where
  "enqueue q elem prio =
     (let (q1, index) = addElem q elem;
          q2 = q1\<lparr>heap := js_set (heap q1) (heap_size q1 * 2) (Some prio)\<rparr>;
          q3 = q2\<lparr>heap := js_set (heap q2) (heap_size q2 * 2 + 1) index\<rparr>;
          q4 = q3\<lparr>heap_size := heap_size q3 + 1\<rparr>
      in restoreUp q4 (heap_size q4 - 1))"

text \<open>
  A method that can throw returns the outcome (\<open>Inl\<close> the exception, \<open>Inr\<close> the value
  returned) together with the state the queue is left in.
\<close>

definition dequeue :: "'a pq \<Rightarrow> (error + 'a option) \<times> 'a pq" where
  "dequeue q =
     (if heap_size q = 0 then (Inl (InvalidOperationException ''The queue is empty.''), q)
      else
        let max = js_get (heap q) 1;
            q1 = q\<lparr>heap_size := heap_size q - 1\<rparr>;
            q2 = q1\<lparr>exited_indexes := js_set (exited_indexes q1) (exited_indexes_count q1) max\<rparr>;
            q3 = q2\<lparr>exited_indexes_count := exited_indexes_count q2 + 1\<rparr>;
            q4 = q3\<lparr>heap := js_set (heap q3) 0 (js_get (heap q3) (heap_size q3 * 2))\<rparr>;
            q5 = q4\<lparr>heap := js_set (heap q4) 1 (js_get (heap q4) (heap_size q4 * 2 + 1))\<rparr>;
            q6 = restoreDown q5 0
        in (Inr (elems_get q6 max), q6))"

definition peek :: "'a pq \<Rightarrow> (error + 'a option) \<times> 'a pq" where
  "peek q =
     (if heap_size q = 0 then (Inl (InvalidOperationException ''The queue is empty.''), q)
      else (Inr (elems_get q (js_get (heap q) 1)), q))"

text \<open>\<^verbatim>\<open>enqueueDequeue\<close> has no check of the size and never throws.\<close>

definition enqueueDequeue :: "'a pq \<Rightarrow> 'a \<Rightarrow> number \<Rightarrow> 'a option \<times> 'a pq" where
  "enqueueDequeue q elem prio =
     (if js_le (Some prio) (js_get (heap q) 0) then (Some elem, q)
      else
        let result = elems_get q (js_get (heap q) 1);
            q1 = q\<lparr>heap := js_set (heap q) 0 (Some prio)\<rparr>;
            q2 = elems_set q1 (js_get (heap q1) 1) (Some elem)
        in (result, restoreDown q2 0))"

definition dequeueEnqueue :: "'a pq \<Rightarrow> 'a \<Rightarrow> number \<Rightarrow> (error + 'a option) \<times> 'a pq" where
  "dequeueEnqueue q elem prio =
     (if heap_size q = 0 then (Inl (InvalidOperationException ''The queue is empty.''), q)
      else
        let result = elems_get q (js_get (heap q) 1);
            q1 = q\<lparr>heap := js_set (heap q) 0 (Some prio)\<rparr>;
            q2 = elems_set q1 (js_get (heap q1) 1) (Some elem)
        in (Inr result, restoreDown q2 0))"

section \<open>Bulk operations\<close>

text \<open>
  The sweep \<^verbatim>\<open>for (let i = Math.floor((_heap_size - 1) / k); i >= 0; i--) _restoreDown(i)\<close>
  of the constructor and of \<^verbatim>\<open>enqueueRange\<close>. \<open>sweep q i\<close> is the loop from \<open>i\<close> on;
  \<open>sweep_indices\<close> lists the indices it calls \<^verbatim>\<open>_restoreDown\<close> on, in order.
\<close>

function sweep :: "'a pq \<Rightarrow> int \<Rightarrow> 'a pq" where
  "sweep q i = (if i \<ge> 0 then sweep (restoreDown q (nat i)) (i - 1) else q)"
  by pat_completeness auto
termination
  by (relation "measure (\<lambda>(q, i). nat (i + 1))") auto

declare sweep.simps [simp del]

function sweep_indices :: "int \<Rightarrow> nat list" where
  "sweep_indices i = (if i \<ge> 0 then nat i # sweep_indices (i - 1) else [])"
  by pat_completeness auto
termination
  by (relation "measure (\<lambda>i. nat (i + 1))") auto

declare sweep_indices.simps [simp del]

text \<open>
  The start of the sweep. With \<open>k = 0\<close> the quotient is \<open>-Infinity\<close> (size 0) or NaN
  (size 1), for which the loop is not entered, or \<open>+Infinity\<close> (size 2 or more), for
  which the loop never ends: \<open>heapify\<close> returns \<open>None\<close> where the code does not return.
\<close>

definition sweep_start :: "'a pq \<Rightarrow> int" where
  "sweep_start q = (int (heap_size q) - 1) div int (k q)"

definition heapify :: "'a pq \<Rightarrow> 'a pq option" where
  "heapify q =
     (if k q = 0 then (if heap_size q < 2 then Some q else None)
      else Some (sweep q (sweep_start q)))"

text \<open>
  The constructor: the field initialisers, then the loop that loads the input \<open>rng\<close> (the source's \<^verbatim>\<open>range\<close>) into
  \<open>heap\<close> and \<open>elems\<close>, then the sweep.
\<close>

definition empty_pq :: "'a pq" where
  "empty_pq =
     \<lparr>heap = [], k = 4, heap_size = 0, elems = [], elems_props = (\<lambda>_. None), elems_size = 0,
      exited_indexes = [], exited_indexes_count = 0\<rparr>"

definition load_step :: "'a IElementPriorityPair list \<Rightarrow> 'a pq \<Rightarrow> nat \<Rightarrow> 'a pq" where
  "load_step rng q i =
     (let q1 = q\<lparr>heap := js_set (heap q) (i * 2) (Some (priority (rng ! i)))\<rparr>;
          q2 = q1\<lparr>heap := js_set (heap q1) (i * 2 + 1) (Some (real i))\<rparr>
      in q2\<lparr>elems := js_set (elems q2) i (Some (element (rng ! i)))\<rparr>)"

definition load_pairs :: "'a IElementPriorityPair list \<Rightarrow> nat \<Rightarrow> 'a pq" where
  "load_pairs rng k0 =
     (let q1 = empty_pq\<lparr>k := k0, heap_size := length rng, elems_size := length rng\<rparr>
      in foldl (load_step rng) q1 [0 ..< heap_size q1])"

definition new_PriorityQueue :: "'a IElementPriorityPair list \<Rightarrow> nat \<Rightarrow> 'a pq option" where
  "new_PriorityQueue rng k0 = heapify (load_pairs rng k0)"

text \<open>
  The test \<^verbatim>\<open>range.length < _heap_size / Math.log2(_heap_size)\<close> of \<^verbatim>\<open>enqueueRange\<close>.
  At size 0 the logarithm is \<open>-Infinity\<close> and the quotient \<open>-0\<close>: the test is false.
  At size 1 the logarithm is 0 and the quotient \<open>+Infinity\<close>: the test is true.
  From size 2 on the quotient is taken exactly (the rounding of the floating-point
  division and logarithm is not modelled).
\<close>

definition range_is_small :: "nat \<Rightarrow> nat \<Rightarrow> bool" where
  "range_is_small n hs =
     (if hs = 0 then False
      else if hs = 1 then True
      else real n < real hs / log 2 (real hs))"

definition bulk_step :: "'a IElementPriorityPair list \<Rightarrow> 'a pq \<Rightarrow> nat \<Rightarrow> 'a pq" where
  "bulk_step rng q i =
     (let (q1, index) = addElem q (element (rng ! i));
          q2 = q1\<lparr>heap := js_set (heap q1) ((heap_size q1 + i) * 2) (Some (priority (rng ! i)))\<rparr>
      in q2\<lparr>heap := js_set (heap q2) ((heap_size q2 + i) * 2 + 1) index\<rparr>)"

definition enqueueRange :: "'a pq \<Rightarrow> 'a IElementPriorityPair list \<Rightarrow> 'a pq option" where
  "enqueueRange q rng =
     (if range_is_small (length rng) (heap_size q)
      then Some (foldl (\<lambda>q1 pair. enqueue q1 (element pair) (priority pair)) q rng)
      else heapify (foldl (bulk_step rng) q [0 ..< length rng]))"

text \<open>
  The sweep as the spec words it, to compare with the one of the source: "from the last
  non-leaf (\<open>floor((n - 2) / k)\<close>) down to the root".
\<close>

definition spec_sweep_indices :: "nat \<Rightarrow> nat \<Rightarrow> nat list" where
  "spec_sweep_indices n kk = sweep_indices ((int n - 2) div int kk)"

section \<open>Basic facts about arrays and the fields an operation leaves alone\<close>

lemma js_get_js_set [simp]:
  "js_get (js_set xs i v) j = (if i = j then v else js_get xs j)"
  by (auto simp: js_get_def js_set_def nth_append nth_Cons')

lemma js_get_js_swap [simp]:
  "js_get (js_swap xs a b) c =
     (if c = b then js_get xs a else if c = a then js_get xs b else js_get xs c)"
  by (simp add: js_swap_def Let_def)

lemma js_get_Nil [simp]: "js_get [] i = None"
  by (simp add: js_get_def)

lemma array_index_real [simp]: "array_index (Some (real n)) = Some n"
  by (simp add: array_index_def)

lemma array_index_None [simp]: "array_index None = None"
  by (simp add: array_index_def)

lemma restoreDown_fields [simp]:
  "heap_size (restoreDown q index) = heap_size q"
  "k (restoreDown q index) = k q"
  "elems (restoreDown q index) = elems q"
  "elems_props (restoreDown q index) = elems_props q"
  "elems_size (restoreDown q index) = elems_size q"
  "exited_indexes (restoreDown q index) = exited_indexes q"
  "exited_indexes_count (restoreDown q index) = exited_indexes_count q"
proof (induction q index rule: restoreDown.induct)
  case (1 q index)
  note IH = 1
  {
    case 1 show ?case using IH(1) by (subst restoreDown.simps) (simp add: Let_def)
  next
    case 2 show ?case using IH(2) by (subst restoreDown.simps) (simp add: Let_def)
  next
    case 3 show ?case using IH(3) by (subst restoreDown.simps) (simp add: Let_def)
  next
    case 4 show ?case using IH(4) by (subst restoreDown.simps) (simp add: Let_def)
  next
    case 5 show ?case using IH(5) by (subst restoreDown.simps) (simp add: Let_def)
  next
    case 6 show ?case using IH(6) by (subst restoreDown.simps) (simp add: Let_def)
  next
    case 7 show ?case using IH(7) by (subst restoreDown.simps) (simp add: Let_def)
  }
qed

lemma elems_get_restoreDown [simp]: "elems_get (restoreDown q index) key = elems_get q key"
  by (simp add: elems_get_def split: option.splits)

lemma restoreUp_fields [simp]:
  "heap_size (restoreUp q index) = heap_size q"
  "k (restoreUp q index) = k q"
  "elems (restoreUp q index) = elems q"
  "elems_props (restoreUp q index) = elems_props q"
  "elems_size (restoreUp q index) = elems_size q"
  "exited_indexes (restoreUp q index) = exited_indexes q"
  "exited_indexes_count (restoreUp q index) = exited_indexes_count q"
proof (induction q index rule: restoreUp.induct)
  case (1 q index)
  note IH = 1
  {
    case 1 show ?case using IH(1) by (subst restoreUp.simps) (simp add: Let_def)
  next
    case 2 show ?case using IH(2) by (subst restoreUp.simps) (simp add: Let_def)
  next
    case 3 show ?case using IH(3) by (subst restoreUp.simps) (simp add: Let_def)
  next
    case 4 show ?case using IH(4) by (subst restoreUp.simps) (simp add: Let_def)
  next
    case 5 show ?case using IH(5) by (subst restoreUp.simps) (simp add: Let_def)
  next
    case 6 show ?case using IH(6) by (subst restoreUp.simps) (simp add: Let_def)
  next
    case 7 show ?case using IH(7) by (subst restoreUp.simps) (simp add: Let_def)
  }
qed

lemma elems_set_fields [simp]:
  "heap_size (elems_set q key v) = heap_size q"
  "k (elems_set q key v) = k q"
  "heap (elems_set q key v) = heap q"
  "elems_size (elems_set q key v) = elems_size q"
  "exited_indexes (elems_set q key v) = exited_indexes q"
  "exited_indexes_count (elems_set q key v) = exited_indexes_count q"
  by (simp_all add: elems_set_def split: option.splits)

lemma dequeue_heap_size:
  "heap_size q \<noteq> 0 \<Longrightarrow> heap_size (snd (dequeue q)) = heap_size q - 1"
  by (simp add: dequeue_def Let_def)

lemma prio_at_swap:
  "prio_at (swap_nodes q i j) l =
     (if l = j then prio_at q i else if l = i then prio_at q j else prio_at q l)"
proof -
  have "l * 2 \<noteq> j * 2 + 1" "l * 2 \<noteq> i * 2 + 1" by presburger+
  then show ?thesis by (simp add: swap_nodes_def prio_at_def)
qed

lemma link_at_swap:
  "link_at (swap_nodes q i j) l =
     (if l = j then link_at q i else if l = i then link_at q j else link_at q l)"
proof -
  have "l * 2 + 1 \<noteq> j * 2" "l * 2 + 1 \<noteq> i * 2" by presburger+
  then show ?thesis by (simp add: swap_nodes_def link_at_def)
qed

lemma elems_get_swap_nodes [simp]: "elems_get (swap_nodes q i j) key = elems_get q key"
  by (simp add: elems_get_def split: option.splits)

lemma elem_at_swap:
  "elem_at (swap_nodes q i j) l =
     (if l = j then elem_at q i else if l = i then elem_at q j else elem_at q l)"
  by (simp add: elem_at_def link_at_swap)

lemma scan_child_prio:
  "scan_child q index m i =
     (if k q * index + i < heap_size q \<and> k q * index + i \<noteq> MAX_SAFE_INTEGER \<and>
         js_lt (prio_at q (k q * index + i)) (Some (fst m))
      then (case prio_at q (k q * index + i) of
              Some p \<Rightarrow> (p, k q * index + i) | None \<Rightarrow> m)
      else m)"
  by (simp add: scan_child_def child_index_def prio_at_def Let_def)

lemma restoreDown_unfold:
  "restoreDown q index =
     (if fst (find_min_child q index) = real MAX_SAFE_INTEGER then q
      else restoreDown
             (if js_gt (prio_at q index) (prio_at q (snd (find_min_child q index)))
              then swap_nodes q index (snd (find_min_child q index)) else q)
             (snd (find_min_child q index)))"
  by (subst restoreDown.simps) (simp add: Let_def prio_at_def)

text \<open>
  The test of \<^verbatim>\<open>enqueueRange\<close> without the logarithm: for sizes from 2 on,
  \<open>n < hs / log\<^sub>2 hs\<close> says \<open>hs ^ n < 2 ^ hs\<close>. This is the equation the test is
  evaluated with.
\<close>

lemma range_is_small_power:
  assumes "2 \<le> hs"
  shows "(real n < real hs / log 2 (real hs)) = (hs ^ n < 2 ^ hs)"
proof -
  have hs1: "1 < real hs" using assms by simp
  have lpos: "0 < log 2 (real hs)" using hs1 by simp
  have "(real n < real hs / log 2 (real hs)) = (real n * log 2 (real hs) < real hs)"
    using lpos by (simp add: pos_less_divide_eq)
  also have "real n * log 2 (real hs) = log 2 (real hs ^ n)"
    using hs1 by (simp add: log_nat_power)
  also have "(log 2 (real hs ^ n) < real hs) = (real hs ^ n < 2 powr (real hs))"
    using hs1 by (subst log_less_iff) simp_all
  also have "2 powr (real hs) = (2::real) ^ hs"
    by (simp add: powr_realpow)
  also have "(real hs ^ n < (2::real) ^ hs) = (hs ^ n < 2 ^ hs)"
  proof -
    have "real hs ^ n = real (hs ^ n)" by simp
    moreover have "(2::real) ^ hs = real (2 ^ hs)" by simp
    ultimately show ?thesis by (simp only: of_nat_less_iff)
  qed
  finally show ?thesis .
qed

lemma range_is_small_code [code]:
  "range_is_small n hs =
     (if hs = 0 then False else if hs = 1 then True else hs ^ n < 2 ^ hs)"
  using range_is_small_power [of hs n] by (simp add: range_is_small_def)

section \<open>Draining\<close>

text \<open>
  \<open>dequeue_n n\<close> calls \<^verbatim>\<open>dequeue\<close> \<open>n\<close> times and collects the outcomes; \<open>drain\<close> is the
  loop \<^verbatim>\<open>while (queue.count != 0) res.push(queue.dequeue())\<close> of the tests.
\<close>

fun dequeue_n :: "nat \<Rightarrow> 'a pq \<Rightarrow> (error + 'a option) list \<times> 'a pq" where
  "dequeue_n 0 q = ([], q)"
| "dequeue_n (Suc n) q =
     (let (r, q1) = dequeue q; (rs, q2) = dequeue_n n q1 in (r # rs, q2))"

function drain :: "'a pq \<Rightarrow> (error + 'a option) list \<times> 'a pq" where
  "drain q =
     (if count_pq q \<noteq> 0
      then (let (r, q1) = dequeue q; (rs, q2) = drain q1 in (r # rs, q2))
      else ([], q))"
  by pat_completeness auto
termination
proof (relation "measure heap_size")
  show "wf (measure (heap_size :: 'a pq \<Rightarrow> nat))" by simp
next
  fix q :: "'a pq" and x :: "(error + 'a option) \<times> 'a pq" and r q1
  assume "count_pq q \<noteq> 0" and "x = dequeue q" and "(r, q1) = x"
  then have "heap_size q \<noteq> 0" and "q1 = snd (dequeue q)"
    by (auto simp: count_pq_def dest: sym)
  then show "(q1, q) \<in> measure heap_size"
    using dequeue_heap_size [of q] by simp
qed

declare drain.simps [simp del]

section \<open>The spec's invariant and its worked example\<close>

text \<open>
  The min-heap property of the spec's data model, on the logical prefix of the heap:
  for every position \<open>i\<close> with \<open>0 < i < heap_size\<close>, the priority at the parent
  \<open>(i - 1) div k\<close> is at most the priority at \<open>i\<close>.
\<close>

definition heap_ok :: "'a pq \<Rightarrow> bool" where
  "heap_ok q =
     list_all
       (\<lambda>i. js_le (js_get (heap q) (((i - 1) div k q) * 2)) (js_get (heap q) (i * 2)))
       [1 ..< heap_size q]"

text \<open>
  Two queues hold the same nodes when they agree on \<open>k\<close>, on the size, and, position by
  position, on the priority and on the element of each node; the links themselves, the
  element store and the recycler may differ.
\<close>

definition same_nodes :: "'a pq \<Rightarrow> 'a pq \<Rightarrow> bool" where
  "same_nodes q q' =
     (k q = k q' \<and> heap_size q = heap_size q' \<and>
      (\<forall>i < heap_size q. prio_at q i = prio_at q' i \<and> elem_at q i = elem_at q' i))"

lemma new_PriorityQueue_empty: "new_PriorityQueue [] 4 = Some empty_pq"
  by (simp add: new_PriorityQueue_def load_pairs_def heapify_def sweep_start_def sweep.simps
      empty_pq_def)

text \<open>
  The example of the spec and of the first test: six pairs, enqueued one by one or given
  to the constructor, are dequeued as \<open>b, d, a, e, f, c\<close>.
\<close>

lemma spec_example_enqueue:
  "fst (drain (enqueue (enqueue (enqueue (enqueue (enqueue (enqueue empty_pq
      ''a'' 3) ''b'' (- 1)) ''c'' 7) ''d'' 2) ''e'' 4) ''f'' 6))
   = [Inr (Some ''b''), Inr (Some ''d''), Inr (Some ''a''), Inr (Some ''e''),
      Inr (Some ''f''), Inr (Some ''c'')]"
  by code_simp

lemma spec_example_constructor:
  "map_option (\<lambda>q. fst (drain q))
     (new_PriorityQueue
        [\<lparr>element = ''a'', priority = 3\<rparr>, \<lparr>element = ''b'', priority = - 1\<rparr>,
         \<lparr>element = ''c'', priority = 7\<rparr>, \<lparr>element = ''d'', priority = 2\<rparr>,
         \<lparr>element = ''e'', priority = 4\<rparr>, \<lparr>element = ''f'', priority = 6\<rparr>] 4)
   = Some [Inr (Some ''b''), Inr (Some ''d''), Inr (Some ''a''), Inr (Some ''e''),
           Inr (Some ''f''), Inr (Some ''c'')]"
  by code_simp

section \<open>Errors on the empty queue\<close>

text \<open>
  C4. \<^verbatim>\<open>dequeue\<close>, \<^verbatim>\<open>peek\<close> and \<^verbatim>\<open>dequeueEnqueue\<close> throw exactly when the count is 0, and
  what they throw is the one exception of the module, \<^verbatim>\<open>InvalidOperationException\<close> with
  the message "The queue is empty."; when the count is not 0 each of them returns.
\<close>

theorem empty_queue_error_iff:
  "(fst (dequeue q) = Inl (InvalidOperationException ''The queue is empty.'')) = (count_pq q = 0) \<and>
   (fst (peek q) = Inl (InvalidOperationException ''The queue is empty.'')) = (count_pq q = 0) \<and>
   (fst (dequeueEnqueue q elem prio) = Inl (InvalidOperationException ''The queue is empty.''))
     = (count_pq q = 0) \<and>
   (\<exists>r. fst (dequeue q) = Inr r) = (count_pq q \<noteq> 0) \<and>
   (\<exists>r. fst (peek q) = Inr r) = (count_pq q \<noteq> 0) \<and>
   (\<exists>r. fst (dequeueEnqueue q elem prio) = Inr r) = (count_pq q \<noteq> 0)"
  by (simp add: dequeue_def peek_def dequeueEnqueue_def count_pq_def Let_def)

text \<open>
  C10. When one of the three throws, the count is 0 and the queue it leaves is the queue
  it was called on: no field has changed.
\<close>

theorem empty_queue_error_leaves_state:
  "((\<exists>e. fst (dequeue q) = Inl e) \<longrightarrow> count_pq q = 0 \<and> snd (dequeue q) = q) \<and>
   ((\<exists>e. fst (peek q) = Inl e) \<longrightarrow> count_pq q = 0 \<and> snd (peek q) = q) \<and>
   ((\<exists>e. fst (dequeueEnqueue q elem prio) = Inl e) \<longrightarrow>
      count_pq q = 0 \<and> snd (dequeueEnqueue q elem prio) = q)"
  by (simp add: dequeue_def peek_def dequeueEnqueue_def count_pq_def Let_def)

theorem empty_queue_error_leaves_state_witness:
  "(\<exists>e. fst (dequeue (empty_pq :: string pq)) = Inl e) \<and>
   snd (dequeue (empty_pq :: string pq)) = empty_pq \<and>
   (\<exists>e. fst (peek (empty_pq :: string pq)) = Inl e) \<and>
   snd (peek (empty_pq :: string pq)) = empty_pq \<and>
   (\<exists>e. fst (dequeueEnqueue (empty_pq :: string pq) ''x'' 1) = Inl e) \<and>
   snd (dequeueEnqueue (empty_pq :: string pq) ''x'' 1) = empty_pq"
proof -
  have d: "\<exists>e. fst (dequeue (empty_pq :: string pq)) = Inl e"
    by (simp add: dequeue_def empty_pq_def)
  have p: "\<exists>e. fst (peek (empty_pq :: string pq)) = Inl e"
    by (simp add: peek_def empty_pq_def)
  have e: "\<exists>e. fst (dequeueEnqueue (empty_pq :: string pq) ''x'' 1) = Inl e"
    by (simp add: dequeueEnqueue_def empty_pq_def)
  show ?thesis
    using d p e empty_queue_error_leaves_state [of "empty_pq :: string pq" "''x''" 1]
    by blast
qed

section \<open>Priorities at or above the sentinel of the child scan\<close>

text \<open>
  \<^verbatim>\<open>_restoreDown\<close> starts its scan with \<^verbatim>\<open>min_child = Number.MAX_SAFE_INTEGER\<close> and
  takes "\<^verbatim>\<open>min_child\<close> is still \<^verbatim>\<open>MAX_SAFE_INTEGER\<close>" to mean "no child". A child whose
  priority is \<open>9007199254740991\<close> or more is never smaller than the start value, so a node
  with only such children is treated as a leaf and is not moved below them.
  The inputs below use the priorities \<open>10^16\<close> and \<open>2 * 10^16\<close>.
\<close>

text \<open>
  C6 (the code at the failing input). The constructor, given \<open>(a, 2 * 10^16)\<close> and
  \<open>(b, 10^16)\<close>, returns a queue whose root has the greater priority: the min-heap
  property does not hold after the constructor returns.
\<close>

theorem heap_property_broken_by_sentinel:
  "map_option heap_ok
     (new_PriorityQueue
        [\<lparr>element = ''a'', priority = 20000000000000000\<rparr>,
         \<lparr>element = ''b'', priority = 10000000000000000\<rparr>] 4)
   = Some False"
  by code_simp

text \<open>
  C1 (the code at the failing input). The queue built by the constructor from
  \<open>(a, 2 * 10^16), (b, 10^16)\<close> is drained as \<open>a, b\<close>, and the queue built by enqueueing
  \<open>(a, 1), (b, 10^16), (c, 2 * 10^16)\<close> is drained as \<open>a, c, b\<close>: neither is in
  non-decreasing priority order.
\<close>

theorem drain_unsorted_by_sentinel:
  "map_option (\<lambda>q. fst (dequeue_n 2 q))
     (new_PriorityQueue
        [\<lparr>element = ''a'', priority = 20000000000000000\<rparr>,
         \<lparr>element = ''b'', priority = 10000000000000000\<rparr>] 4)
   = Some [Inr (Some ''a''), Inr (Some ''b'')] \<and>
   fst (dequeue_n 3
          (enqueue (enqueue (enqueue empty_pq ''a'' 1) ''b'' 10000000000000000)
             ''c'' 20000000000000000))
   = [Inr (Some ''a''), Inr (Some ''c''), Inr (Some ''b'')]"
  by code_simp

text \<open>
  C5 (the code at the failing input). \<^verbatim>\<open>enqueueDequeue\<close> compares the new priority with
  the root's. In the queue the constructor builds from \<open>(a, 2 * 10^16), (b, 10^16)\<close> the
  root is \<open>a\<close> and the minimum is \<open>b\<close>: \<^verbatim>\<open>enqueueDequeue(x, 1.5 * 10^16)\<close>, whose priority
  is above the minimum, returns \<open>x\<close> and not \<open>b\<close>. In the queue built by enqueueing
  \<open>(a, 1), (b, 10^16)\<close>, \<^verbatim>\<open>enqueueDequeue(x, 2 * 10^16)\<close> returns \<open>a\<close> and leaves \<open>x\<close> at
  the root, above \<open>b\<close>: the next \<^verbatim>\<open>peek\<close> returns \<open>x\<close>.
\<close>

theorem enqueueDequeue_misled_by_sentinel:
  "map_option (\<lambda>q. fst (enqueueDequeue q ''x'' 15000000000000000))
     (new_PriorityQueue
        [\<lparr>element = ''a'', priority = 20000000000000000\<rparr>,
         \<lparr>element = ''b'', priority = 10000000000000000\<rparr>] 4)
   = Some (Some ''x'') \<and>
   fst (enqueueDequeue (enqueue (enqueue empty_pq ''a'' 1) ''b'' 10000000000000000)
          ''x'' 20000000000000000)
   = Some ''a'' \<and>
   fst (peek (snd (enqueueDequeue (enqueue (enqueue empty_pq ''a'' 1) ''b'' 10000000000000000)
          ''x'' 20000000000000000)))
   = Inr (Some ''x'') \<and>
   fst (drain (snd (enqueueDequeue (enqueue (enqueue empty_pq ''a'' 1) ''b'' 10000000000000000)
          ''x'' 20000000000000000)))
   = [Inr (Some ''x''), Inr (Some ''b'')]"
  by code_simp

section \<open>The bulk path of enqueueRange\<close>

text \<open>
  The bulk path of \<^verbatim>\<open>enqueueRange\<close> stores the elements and writes the heap entries past
  \<open>heap_size\<close>, but never adds \<^verbatim>\<open>range.length\<close> to \<open>heap_size\<close>. On an empty queue
  every call takes this path.
\<close>

text \<open>
  C2 (the code at the failing input). On the queue \<^verbatim>\<open>new PriorityQueue()\<close>,
  \<^verbatim>\<open>enqueueRange\<close> of one pair leaves the count at 0; on a queue of two elements,
  \<^verbatim>\<open>enqueueRange\<close> of two pairs leaves the count at 2.
\<close>

theorem enqueueRange_bulk_keeps_count:
  "map_option count_pq (enqueueRange empty_pq [\<lparr>element = ''a'', priority = 1\<rparr>]) = Some 0 \<and>
   map_option count_pq
     (enqueueRange (enqueue (enqueue empty_pq ''a'' 1) ''b'' 2)
        [\<lparr>element = ''c'', priority = 3\<rparr>, \<lparr>element = ''d'', priority = 4\<rparr>])
   = Some 2"
  by code_simp

text \<open>
  C3 (the code at the failing input). After \<^verbatim>\<open>enqueueRange\<close> of the pair \<open>(a, 1)\<close> on the
  empty queue, \<^verbatim>\<open>unorderedItems\<close> is \<open>[a]\<close>; after a \<^verbatim>\<open>shrink\<close>, which neither inserts
  nor removes, it is empty. Nothing was removed in between.
\<close>

theorem unorderedItems_after_bulk_and_shrink:
  "map_option unorderedItems (enqueueRange empty_pq [\<lparr>element = ''a'', priority = 1\<rparr>])
   = Some [Some ''a''] \<and>
   map_option (\<lambda>q. unorderedItems (shrink q))
     (enqueueRange empty_pq [\<lparr>element = ''a'', priority = 1\<rparr>])
   = Some []"
  by code_simp

section \<open>enqueueDequeue on an empty queue\<close>

lemma new_PriorityQueue_Nil:
  "new_PriorityQueue [] kk = Some (empty_pq\<lparr>k := kk\<rparr>)"
  by (simp add: new_PriorityQueue_def load_pairs_def heapify_def sweep_start_def sweep.simps
      empty_pq_def div_eq_minus1)

text \<open>
  The documentation of \<^verbatim>\<open>enqueueDequeue\<close> says that \<^verbatim>\<open>InvalidOperationException\<close> is
  thrown "if queue out of elements", and \<^verbatim>\<open>dequeueEnqueue\<close>, the method below it, begins
  with that check. \<^verbatim>\<open>enqueueDequeue\<close> has no check: it compares with, and returns from,
  whatever the root slot holds.
\<close>

text \<open>
  C9 (the code at the failing input). After \<^verbatim>\<open>enqueue(a, 5)\<close> and \<^verbatim>\<open>dequeue()\<close> the queue
  is empty. On it \<^verbatim>\<open>enqueueDequeue(x, 3)\<close> returns \<open>x\<close> and \<^verbatim>\<open>enqueueDequeue(x, 7)\<close>
  returns the element \<open>a\<close> that was dequeued before, where \<^verbatim>\<open>dequeueEnqueue(x, 7)\<close>
  throws. On the queue \<^verbatim>\<open>new PriorityQueue()\<close> a first \<^verbatim>\<open>enqueueDequeue(x, 1)\<close> returns
  undefined, and a second call \<^verbatim>\<open>enqueueDequeue(y, 2)\<close> returns the \<open>x\<close> of the first,
  with the count at 0 all along.
\<close>

theorem enqueueDequeue_on_emptied_queue:
  "count_pq (snd (dequeue (enqueue empty_pq ''a'' 5))) = 0 \<and>
   fst (enqueueDequeue (snd (dequeue (enqueue empty_pq ''a'' 5))) ''x'' 3) = Some ''x'' \<and>
   fst (enqueueDequeue (snd (dequeue (enqueue empty_pq ''a'' 5))) ''x'' 7) = Some ''a'' \<and>
   fst (dequeueEnqueue (snd (dequeue (enqueue empty_pq ''a'' 5))) ''x'' 7)
     = Inl (InvalidOperationException ''The queue is empty.'') \<and>
   fst (enqueueDequeue (empty_pq :: string pq) ''x'' 1) = None \<and>
   count_pq (snd (enqueueDequeue (empty_pq :: string pq) ''x'' 1)) = 0 \<and>
   fst (enqueueDequeue (snd (enqueueDequeue empty_pq ''x'' 1)) ''y'' 2) = Some ''x''"
  by code_simp

text \<open>
  The missing check on every queue of count 0: the call returns a value and leaves the
  count at 0, and the methods that have the check throw afterwards as they did before.
  The value is undefined on a queue fresh from the constructor with no pairs and on a
  queue just cleared.
\<close>

lemma enqueueDequeue_missing_check:
  "(count_pq q = 0 \<longrightarrow>
      count_pq (snd (enqueueDequeue q elem prio)) = 0 \<and>
      fst (dequeue (snd (enqueueDequeue q elem prio)))
        = Inl (InvalidOperationException ''The queue is empty.'') \<and>
      fst (peek (snd (enqueueDequeue q elem prio)))
        = Inl (InvalidOperationException ''The queue is empty.'') \<and>
      fst (dequeueEnqueue (snd (enqueueDequeue q elem prio)) elem2 prio2)
        = Inl (InvalidOperationException ''The queue is empty.'')) \<and>
   (new_PriorityQueue [] kk = Some q \<longrightarrow> fst (enqueueDequeue q elem prio) = None) \<and>
   fst (enqueueDequeue (clear q) elem prio) = None"
proof -
  have size: "heap_size (snd (enqueueDequeue q elem prio)) = heap_size q"
    by (simp add: enqueueDequeue_def Let_def)
  have fresh: "new_PriorityQueue [] kk = Some q \<Longrightarrow> fst (enqueueDequeue q elem prio) = None"
    by (auto simp: new_PriorityQueue_Nil enqueueDequeue_def empty_pq_def elems_get_def Let_def)
  have cleared: "fst (enqueueDequeue (clear q) elem prio) = None"
    by (simp add: enqueueDequeue_def clear_def elems_get_def Let_def)
  show ?thesis
    using size fresh cleared
    by (simp add: count_pq_def dequeue_def peek_def dequeueEnqueue_def)
qed

section \<open>The sweep of the constructor\<close>

lemma sweep_foldl: "sweep q i = foldl restoreDown q (sweep_indices i)"
proof (induction q i rule: sweep.induct)
  case (1 q i)
  show ?case
  proof (cases "i \<ge> 0")
    case True
    then show ?thesis
      using 1 by (subst sweep.simps, subst sweep_indices.simps) simp
  next
    case False
    then show ?thesis
      by (subst sweep.simps, subst sweep_indices.simps) simp
  qed
qed

lemma sweep_indices_upt: "sweep_indices i = rev [0 ..< nat (i + 1)]"
proof (induction i rule: sweep_indices.induct)
  case (1 i)
  show ?case
  proof (cases "i \<ge> 0")
    case True
    then have "nat (i + 1) = Suc (nat i)" by simp
    moreover have "nat (i - 1 + 1) = nat i" by simp
    ultimately show ?thesis
      using 1 True by (subst sweep_indices.simps) simp
  next
    case False
    then show ?thesis by (subst sweep_indices.simps) simp
  qed
qed

lemma foldl_load_step_fields:
  "heap_size (foldl (load_step rng) q ns) = heap_size q \<and>
   k (foldl (load_step rng) q ns) = k q"
  by (induction ns arbitrary: q) (simp_all add: load_step_def Let_def)

lemma load_pairs_fields [simp]:
  "heap_size (load_pairs rng kk) = length rng" "k (load_pairs rng kk) = kk"
  by (simp_all add: load_pairs_def Let_def foldl_load_step_fields)

lemma foldl_scan_child_leaf:
  "\<forall>i \<in> set ns. heap_size q \<le> k q * index + i \<Longrightarrow>
   foldl (scan_child q index) m ns = m"
  by (induction ns arbitrary: m) (simp_all add: scan_child_def child_index_def)

lemma restoreDown_leaf:
  assumes "heap_size q \<le> k q * index + 1"
  shows "restoreDown q index = q"
proof -
  have "find_min_child q index = (real MAX_SAFE_INTEGER, 0)"
    unfolding find_min_child_def
    by (rule foldl_scan_child_leaf) (use assms in auto)
  then show ?thesis by (subst restoreDown.simps) simp
qed

text \<open>
  The comments of the source put the last non-leaf node of a heap of size \<open>n\<close> at
  \<open>(n - 2) / k\<close> and say that the constructor heapifies "all internal nodes starting
  from last non-leaf node". The loops of the constructor and of \<^verbatim>\<open>enqueueRange\<close> start
  at \<^verbatim>\<open>Math.floor((this._heap_size - 1) / k)\<close>, and in \<^verbatim>\<open>enqueueRange\<close> the size is the
  one the queue had before the call.
\<close>

text \<open>
  C8 (the code at the failing input). With five pairs and \<open>k = 4\<close> the constructor
  calls \<^verbatim>\<open>_restoreDown\<close> on 1 and 0, and position 1 is a leaf; with one pair it calls it
  on 0, where there is no internal node. In \<^verbatim>\<open>enqueueRange\<close>, the four pairs
  \<open>(c, 6), (d, 7), (e, 8), (f, 2)\<close> given to the queue of \<open>(a, 1), (b, 5)\<close> take the bulk
  path and are followed by a sweep over position 0 alone, where a heap of six has the
  internal nodes 1 and 0: position 1 keeps the priority 5 above its child at position 5
  with the priority 2, and the count stays 2.
\<close>

theorem sweep_starts_past_last_non_leaf:
  "sweep_indices (sweep_start (load_pairs
      [\<lparr>element = ''a'', priority = 1\<rparr>, \<lparr>element = ''b'', priority = 2\<rparr>,
       \<lparr>element = ''c'', priority = 3\<rparr>, \<lparr>element = ''d'', priority = 4\<rparr>,
       \<lparr>element = ''e'', priority = 5\<rparr>] 4)) = [1, 0] \<and>
   spec_sweep_indices 5 4 = [0] \<and>
   sweep_indices (sweep_start (load_pairs [\<lparr>element = ''a'', priority = 1\<rparr>] 4)) = [0] \<and>
   spec_sweep_indices 1 4 = [] \<and>
   \<not> range_is_small 4 (heap_size (enqueue (enqueue empty_pq ''a'' 1) ''b'' 5)) \<and>
   sweep_indices (sweep_start (foldl
      (bulk_step
         [\<lparr>element = ''c'', priority = 6\<rparr>, \<lparr>element = ''d'', priority = 7\<rparr>,
          \<lparr>element = ''e'', priority = 8\<rparr>, \<lparr>element = ''f'', priority = 2\<rparr>])
      (enqueue (enqueue empty_pq ''a'' 1) ''b'' 5) [0 ..< 4])) = [0] \<and>
   spec_sweep_indices 6 4 = [1, 0] \<and>
   map_option (\<lambda>q. (count_pq q, prio_at q 1, prio_at q 5, heap_ok (q\<lparr>heap_size := 6\<rparr>)))
     (enqueueRange (enqueue (enqueue empty_pq ''a'' 1) ''b'' 5)
        [\<lparr>element = ''c'', priority = 6\<rparr>, \<lparr>element = ''d'', priority = 7\<rparr>,
         \<lparr>element = ''e'', priority = 8\<rparr>, \<lparr>element = ''f'', priority = 2\<rparr>])
   = Some (2, Some 5, Some 2, False)"
  by code_simp

text \<open>
  The sweep of the constructor in general, for \<open>k \<ge> 1\<close>: it calls \<^verbatim>\<open>_restoreDown\<close> on
  every index from \<open>floor((n - 1) / k)\<close> down to 0, in this order. Every position that
  has a child (\<open>k * i + 1 < n\<close>) is among them, and on a position without children the
  call changes nothing.
\<close>

lemma constructor_sweep:
  assumes "0 < kk"
  shows "new_PriorityQueue rng kk =
           Some (foldl restoreDown (load_pairs rng kk)
                   (sweep_indices ((int (length rng) - 1) div int kk))) \<and>
         sweep_indices ((int (length rng) - 1) div int kk) =
           rev [0 ..< nat ((int (length rng) - 1) div int kk + 1)] \<and>
         (\<forall>i. kk * i + 1 < length rng \<longrightarrow>
              i \<in> set (sweep_indices ((int (length rng) - 1) div int kk))) \<and>
         (\<forall>i. length rng \<le> kk * i + 1 \<longrightarrow>
              restoreDown (load_pairs rng kk) i = load_pairs rng kk)"
proof -
  have a: "new_PriorityQueue rng kk =
           Some (foldl restoreDown (load_pairs rng kk)
                   (sweep_indices ((int (length rng) - 1) div int kk)))"
    using assms by (simp add: new_PriorityQueue_def heapify_def sweep_start_def sweep_foldl)
  have c: "i \<in> set (sweep_indices ((int (length rng) - 1) div int kk))"
    if "kk * i + 1 < length rng" for i
  proof -
    have "int (kk * i + 1) < int (length rng)" using that by (simp only: of_nat_less_iff)
    then have le: "int i * int kk \<le> int (length rng) - 1" by (simp add: mult.commute)
    have "(int i * int kk) div int kk \<le> (int (length rng) - 1) div int kk"
      by (rule zdiv_mono1) (use le assms in simp_all)
    then have "int i \<le> (int (length rng) - 1) div int kk" using assms by simp
    then show ?thesis by (auto simp: sweep_indices_upt)
  qed
  have d: "restoreDown (load_pairs rng kk) i = load_pairs rng kk"
    if "length rng \<le> kk * i + 1" for i
    by (rule restoreDown_leaf) (use that in simp)
  show ?thesis using a c d by (simp add: sweep_indices_upt)
qed

text \<open>
  Where the two starts differ, the index the source adds is a leaf. So, on a queue whose
  size counts the loaded nodes, as in the constructor, the sweep returns the queue that a
  sweep from \<open>floor((n - 2) / k)\<close> returns: there the difference is one call that changes
  nothing.
\<close>

lemma sweep_leaf_step:
  assumes "0 \<le> i" "heap_size q \<le> k q * nat i + 1"
  shows "sweep q i = sweep q (i - 1)"
  using assms by (subst sweep.simps) (simp add: restoreDown_leaf)

lemma sweep_negative: "i < 0 \<Longrightarrow> sweep q i = q"
  by (subst sweep.simps) simp

lemma sweep_start_spec:
  assumes "1 \<le> k q"
  shows "sweep q ((int (heap_size q) - 2) div int (k q)) = sweep q (sweep_start q)"
proof -
  let ?n = "int (heap_size q)" and ?k = "int (k q)"
  let ?a = "(?n - 1) div ?k" and ?b = "(?n - 2) div ?k"
  have kpos: "0 < ?k" using assms by simp
  have le: "?b \<le> ?a" by (rule zdiv_mono1) (use kpos in simp_all)
  have "?a \<le> (?n - 2 + ?k) div ?k" by (rule zdiv_mono1) (use kpos in simp_all)
  also have "\<dots> = ?b + 1" using kpos by simp
  finally have ge: "?a \<le> ?b + 1" .
  show ?thesis
  proof (cases "?a = ?b")
    case True
    then show ?thesis by (simp add: sweep_start_def)
  next
    case False
    then have ab: "?b = ?a - 1" using le ge by linarith
    show ?thesis
    proof (cases "0 \<le> ?a")
      case False
      then have "?a < 0" "?b < 0" using le by simp_all
      then show ?thesis by (simp add: sweep_start_def sweep_negative)
    next
      case True
      have "?n - 2 = ?k * ?b + (?n - 2) mod ?k" by simp
      moreover have "(?n - 2) mod ?k < ?k" using kpos by simp
      ultimately have "?n - 2 < ?k * ?b + ?k" by linarith
      then have "?n - 2 < (?b + 1) * ?k" by (simp add: algebra_simps)
      then have "?n - 1 \<le> ?a * ?k" using ab by simp
      then have "?n \<le> ?k * int (nat ?a) + 1" using True by (simp add: mult.commute)
      then have "int (heap_size q) \<le> int (k q * nat ?a + 1)" by simp
      then have "heap_size q \<le> k q * nat ?a + 1" by (simp only: of_nat_le_iff)
      from sweep_leaf_step [OF True this] ab show ?thesis by (simp add: sweep_start_def)
    qed
  qed
qed

section \<open>shrink does not change what is dequeued\<close>

text \<open>
  \<^verbatim>\<open>_restoreDown\<close> and \<^verbatim>\<open>dequeue\<close> read the priorities of the nodes below \<open>heap_size\<close>
  and hand out the elements the links lead to; they never look at the value of a link.
  So two queues that hold the same nodes are dequeued alike, and \<^verbatim>\<open>shrink\<close> returns a
  queue that holds the same nodes.
\<close>

lemma same_nodes_swap:
  assumes "same_nodes q q'" "i < heap_size q" "j < heap_size q"
  shows "same_nodes (swap_nodes q i j) (swap_nodes q' i j)"
  using assms by (simp add: same_nodes_def prio_at_swap elem_at_swap)

lemma same_nodes_scan_child:
  assumes "same_nodes q q'"
  shows "scan_child q index m i = scan_child q' index m i"
proof -
  have kk: "k q = k q'" and hs: "heap_size q = heap_size q'"
    using assms by (simp_all add: same_nodes_def)
  show ?thesis
  proof (cases "k q * index + i < heap_size q")
    case True
    then have "prio_at q (k q * index + i) = prio_at q' (k q * index + i)"
      using assms by (simp add: same_nodes_def)
    then show ?thesis using True kk hs by (simp add: scan_child_prio cong: option.case_cong)
  next
    case False
    then show ?thesis using kk hs by (simp add: scan_child_prio)
  qed
qed

lemma same_nodes_find_min_child:
  assumes "same_nodes q q'"
  shows "find_min_child q index = find_min_child q' index"
proof -
  have "scan_child q index = scan_child q' index"
    using same_nodes_scan_child [OF assms] by (intro ext)
  moreover have "k q = k q'" using assms by (simp add: same_nodes_def)
  ultimately show ?thesis by (simp add: find_min_child_def)
qed

lemma same_nodes_restoreDown:
  "same_nodes q q' \<Longrightarrow> same_nodes (restoreDown q index) (restoreDown q' index)"
proof (induction q index arbitrary: q' rule: restoreDown.induct)
  case (1 q index)
  let ?m = "find_min_child q index"
  have m': "find_min_child q' index = ?m"
    using same_nodes_find_min_child [OF "1.prems"] by simp
  show ?case
  proof (cases "fst ?m = real MAX_SAFE_INTEGER")
    case True
    then show ?thesis
      using "1.prems" m' by (subst restoreDown_unfold, subst (2) restoreDown_unfold) simp
  next
    case False
    then have b: "index < snd ?m" "snd ?m < heap_size q"
      using find_min_child_bounds [of q index] by simp_all
    then have i: "index < heap_size q" by simp
    let ?c = "js_gt (prio_at q index) (prio_at q (snd ?m))"
    have c': "js_gt (prio_at q' index) (prio_at q' (snd ?m)) = ?c"
      using "1.prems" b i by (simp add: same_nodes_def)
    let ?q1 = "if ?c then swap_nodes q index (snd ?m) else q"
    let ?q1' = "if ?c then swap_nodes q' index (snd ?m) else q'"
    have "same_nodes ?q1 ?q1'"
      using "1.prems" same_nodes_swap [OF "1.prems" i b(2)] by simp
    moreover have "?q1 = (if js_gt (js_get (heap q) (index * 2)) (js_get (heap q) (snd ?m * 2))
        then swap_nodes q index (snd ?m) else q)"
      by (simp add: prio_at_def)
    ultimately have "same_nodes (restoreDown ?q1 (snd ?m)) (restoreDown ?q1' (snd ?m))"
      using "1.IH" [OF refl False, of ?q1'] by simp
    moreover have "restoreDown q index = restoreDown ?q1 (snd ?m)"
      using False by (subst restoreDown_unfold) simp
    moreover have "restoreDown q' index = restoreDown ?q1' (snd ?m)"
      using False m' c' by (subst restoreDown_unfold) simp
    ultimately show ?thesis by simp
  qed
qed

lemma elems_get_update [simp]:
  "elems_get (q\<lparr>heap := h\<rparr>) key = elems_get q key"
  "elems_get (q\<lparr>heap_size := n\<rparr>) key = elems_get q key"
  "elems_get (q\<lparr>exited_indexes := ex\<rparr>) key = elems_get q key"
  "elems_get (q\<lparr>exited_indexes_count := c\<rparr>) key = elems_get q key"
  "elems_get (q\<lparr>elems_size := c\<rparr>) key = elems_get q key"
  by (simp_all add: elems_get_def split: option.splits)

lemma prio_at_restoreDown_heap_size [simp]:
  "prio_at (q\<lparr>heap_size := n\<rparr>) i = prio_at q i"
  "link_at (q\<lparr>heap_size := n\<rparr>) i = link_at q i"
  by (simp_all add: prio_at_def link_at_def)

lemma same_nodes_dequeue:
  assumes "same_nodes q q'" "heap_size q \<noteq> 0"
  shows "fst (dequeue q) = fst (dequeue q') \<and> same_nodes (snd (dequeue q)) (snd (dequeue q'))"
proof -
  have hs: "heap_size q' = heap_size q" and kk: "k q' = k q"
    using assms(1) by (simp_all add: same_nodes_def)
  define n where "n = heap_size q - 1"
  have n: "n < heap_size q" using assms(2) by (simp add: n_def)
  define h1 where "h1 = js_set (js_set (heap q) 0 (js_get (heap q) (n * 2))) 1
       (js_get (js_set (heap q) 0 (js_get (heap q) (n * 2))) (n * 2 + 1))"
  define h1' where "h1' = js_set (js_set (heap q') 0 (js_get (heap q') (n * 2))) 1
       (js_get (js_set (heap q') 0 (js_get (heap q') (n * 2))) (n * 2 + 1))"
  define p where "p = q\<lparr>heap_size := n,
      exited_indexes := js_set (exited_indexes q) (exited_indexes_count q) (js_get (heap q) 1),
      exited_indexes_count := exited_indexes_count q + 1, heap := h1\<rparr>"
  define p' where "p' = q'\<lparr>heap_size := n,
      exited_indexes := js_set (exited_indexes q') (exited_indexes_count q') (js_get (heap q') 1),
      exited_indexes_count := exited_indexes_count q' + 1, heap := h1'\<rparr>"
  have d: "dequeue q = (Inr (elems_get q (js_get (heap q) 1)), restoreDown p 0)"
    using assms(2) by (simp add: dequeue_def Let_def p_def h1_def n_def)
  have d': "dequeue q' = (Inr (elems_get q' (js_get (heap q') 1)), restoreDown p' 0)"
    using assms(2) hs by (simp add: dequeue_def Let_def p'_def h1'_def n_def)
  have root: "elems_get q (js_get (heap q) 1) = elems_get q' (js_get (heap q') 1)"
  proof -
    have "0 < heap_size q" using assms(2) by simp
    then have "elem_at q 0 = elem_at q' 0" using assms(1) by (simp add: same_nodes_def)
    then show ?thesis by (simp add: elem_at_def link_at_def)
  qed
  have pr: "prio_at p i = (if i = 0 then prio_at q n else prio_at q i)" for i
  proof -
    have "i * 2 \<noteq> 1" by presburger
    then show ?thesis by (auto simp: p_def h1_def prio_at_def)
  qed
  have pr': "prio_at p' i = (if i = 0 then prio_at q' n else prio_at q' i)" for i
  proof -
    have "i * 2 \<noteq> 1" by presburger
    then show ?thesis by (auto simp: p'_def h1'_def prio_at_def)
  qed
  have li: "link_at p i = (if i = 0 then link_at q n else link_at q i)" for i
  proof (cases "n = 0")
    case True
    then show ?thesis by (auto simp: p_def h1_def link_at_def)
  next
    case False
    then show ?thesis by (auto simp: p_def h1_def link_at_def)
  qed
  have li': "link_at p' i = (if i = 0 then link_at q' n else link_at q' i)" for i
  proof (cases "n = 0")
    case True
    then show ?thesis by (auto simp: p'_def h1'_def link_at_def)
  next
    case False
    then show ?thesis by (auto simp: p'_def h1'_def link_at_def)
  qed
  have eg: "elems_get p key = elems_get q key" "elems_get p' key = elems_get q' key" for key
    by (simp_all add: p_def p'_def)
  have "same_nodes p p'"
    using assms(1) n kk hs
    by (auto simp: same_nodes_def pr pr' elem_at_def li li' eg) (simp_all add: p_def p'_def)
  then have "same_nodes (restoreDown p 0) (restoreDown p' 0)"
    by (rule same_nodes_restoreDown)
  then show ?thesis using d d' root by simp
qed


lemma shrink_fold:
  "js_get (fst (foldl (shrink_step q) ([], []) [0 ..< n])) (i * 2)
     = (if i < n then prio_at q i else None) \<and>
   js_get (fst (foldl (shrink_step q) ([], []) [0 ..< n])) (i * 2 + 1)
     = (if i < n then Some (real i) else None) \<and>
   js_get (snd (foldl (shrink_step q) ([], []) [0 ..< n])) i
     = (if i < n then elem_at q i else None)"
proof (induction n)
  case 0
  show ?case by simp
next
  case (Suc n)
  have ne: "n * 2 + 1 \<noteq> i * 2" "n * 2 \<noteq> i * 2 + 1" by presburger+
  have eq: "(n * 2 = i * 2) = (n = i)" "(n * 2 + 1 = i * 2 + 1) = (n = i)" by simp_all
  show ?case
    using Suc ne
    by (auto simp: shrink_step_def Let_def prio_at_def link_at_def elem_at_def
        simp del: mult_Suc_right mult_Suc)
qed

lemma same_nodes_shrink: "same_nodes q (shrink q)"
proof -
  have p: "prio_at (shrink q) i = prio_at q i" if "i < heap_size q" for i
    using shrink_fold [of q "heap_size q" i] that
    by (simp add: shrink_def Let_def prio_at_def)
  have l: "link_at (shrink q) i = Some (real i)" if "i < heap_size q" for i
    using shrink_fold [of q "heap_size q" i] that
    by (simp add: shrink_def Let_def link_at_def)
  have e: "elem_at (shrink q) i = elem_at q i" if "i < heap_size q" for i
  proof -
    have "elem_at (shrink q) i = js_get (elems (shrink q)) i"
      using l [OF that] by (simp add: elem_at_def elems_get_def)
    also have "\<dots> = elem_at q i"
      using shrink_fold [of q "heap_size q" i] that by (simp add: shrink_def Let_def)
    finally show ?thesis .
  qed
  have "k (shrink q) = k q" "heap_size (shrink q) = heap_size q"
    by (simp_all add: shrink_def Let_def)
  then show ?thesis using p e by (simp add: same_nodes_def)
qed

lemma same_nodes_drain:
  "same_nodes q q' \<Longrightarrow> fst (drain q) = fst (drain q')"
proof (induction q arbitrary: q' rule: drain.induct)
  case (1 q)
  have hs: "heap_size q' = heap_size q" using "1.prems" by (simp add: same_nodes_def)
  show ?case
  proof (cases "count_pq q \<noteq> 0")
    case False
    then show ?thesis
      using hs by (subst drain.simps, subst (2) drain.simps) (simp add: count_pq_def)
  next
    case True
    then have ne: "heap_size q \<noteq> 0" by (simp add: count_pq_def)
    obtain r q1 where d: "dequeue q = (r, q1)" by (cases "dequeue q")
    obtain r' q1' where d': "dequeue q' = (r', q1')" by (cases "dequeue q'")
    have rr: "r = r'" and sn: "same_nodes q1 q1'"
      using same_nodes_dequeue [OF "1.prems" ne] d d' by simp_all
    have "fst (drain q1) = fst (drain q1')"
      using "1.IH" [OF True refl d [symmetric] sn] .
    moreover have "fst (drain q) = r # fst (drain q1)"
      using True d by (subst drain.simps) (simp add: split_beta)
    moreover have "fst (drain q') = r' # fst (drain q1')"
      using True hs d' by (subst drain.simps) (simp add: split_beta count_pq_def)
    ultimately show ?thesis using rr by simp
  qed
qed

text \<open>
  C7. For every queue state (reachable or not), draining after \<^verbatim>\<open>shrink()\<close> returns the
  same sequence of outcomes as draining without it, and \<^verbatim>\<open>shrink()\<close> leaves the count
  unchanged.
\<close>

theorem shrink_then_drain:
  "fst (drain (shrink q)) = fst (drain q) \<and> count_pq (shrink q) = count_pq q"
proof -
  have "fst (drain q) = fst (drain (shrink q))"
    by (rule same_nodes_drain) (rule same_nodes_shrink)
  moreover have "count_pq (shrink q) = count_pq q"
    by (simp add: count_pq_def shrink_def Let_def)
  ultimately show ?thesis by simp
qed

theorem shrink_then_drain_witness:
  "fst (drain (shrink (snd (dequeue
      (enqueue (enqueue (enqueue (enqueue empty_pq ''a'' 3) ''b'' (- 1)) ''c'' 7) ''d'' 2)))))
   = fst (drain (snd (dequeue
      (enqueue (enqueue (enqueue (enqueue empty_pq ''a'' 3) ''b'' (- 1)) ''c'' 7) ''d'' 2)))) \<and>
   fst (drain (snd (dequeue
      (enqueue (enqueue (enqueue (enqueue empty_pq ''a'' 3) ''b'' (- 1)) ''c'' 7) ''d'' 2))))
   = [Inr (Some ''d''), Inr (Some ''a''), Inr (Some ''c'')]"
proof -
  have "fst (drain (snd (dequeue
      (enqueue (enqueue (enqueue (enqueue empty_pq ''a'' 3) ''b'' (- 1)) ''c'' 7) ''d'' 2))))
   = [Inr (Some ''d''), Inr (Some ''a''), Inr (Some ''c'')]"
    by code_simp
  then show ?thesis
    using shrink_then_drain [of "snd (dequeue
      (enqueue (enqueue (enqueue (enqueue empty_pq ''a'' 3) ''b'' (- 1)) ''c'' 7) ''d'' 2))"]
    by simp
qed

section \<open>Priorities below the sentinel: the child scan and the sift down\<close>

text \<open>
  The rest of the development is about queues whose priorities are all below
  \<^verbatim>\<open>Number.MAX_SAFE_INTEGER\<close>, the value \<^verbatim>\<open>_restoreDown\<close> starts its search of the least child
  from and takes as the sign that there is no child, and whose \<open>k\<close> is at least 1. On
  those the child scan finds the least child, and the operations keep the heap property
  and the nodes they should.

  \<open>bounded q\<close>: every node of the heap has a priority, below the sentinel, and the size is
  at most the sentinel (the scan also compares child indices with it).
\<close>

definition bounded :: "'a pq \<Rightarrow> bool" where
  "bounded q =
     (heap_size q \<le> MAX_SAFE_INTEGER \<and>
      (\<forall>i < heap_size q. \<exists>p. prio_at q i = Some p \<and> p < real MAX_SAFE_INTEGER))"

lemma scan_fold:
  assumes "bounded q"
  shows "fst (foldl (scan_child q index) m ns) \<le> fst m \<and>
         (foldl (scan_child q index) m ns = m \<or>
          (\<exists>i \<in> set ns. k q * index + i < heap_size q \<and>
              snd (foldl (scan_child q index) m ns) = k q * index + i \<and>
              prio_at q (k q * index + i) = Some (fst (foldl (scan_child q index) m ns)))) \<and>
         (\<forall>i \<in> set ns. k q * index + i < heap_size q \<longrightarrow>
              js_le (Some (fst (foldl (scan_child q index) m ns))) (prio_at q (k q * index + i)))"
proof (induction ns arbitrary: m)
  case Nil
  show ?case by simp
next
  case (Cons i ns)
  let ?m1 = "scan_child q index m i"
  let ?r = "foldl (scan_child q index) ?m1 ns"
  let ?c = "k q * index + i"
  have step: "fst ?m1 \<le> fst m \<and>
      (?m1 = m \<or> (?c < heap_size q \<and> snd ?m1 = ?c \<and> prio_at q ?c = Some (fst ?m1))) \<and>
      (?c < heap_size q \<longrightarrow> js_le (Some (fst ?m1)) (prio_at q ?c))"
  proof (cases "?c < heap_size q")
    case False
    then show ?thesis by (simp add: scan_child_prio)
  next
    case True
    then obtain p where p: "prio_at q ?c = Some p" "p < real MAX_SAFE_INTEGER"
      using assms by (auto simp: bounded_def)
    have "?c \<noteq> MAX_SAFE_INTEGER" using True assms by (simp add: bounded_def)
    then show ?thesis using True p by (simp add: scan_child_prio)
  qed
  note IH = Cons.IH [of ?m1]
  have a: "fst ?r \<le> fst m" using IH step by linarith
  have b: "?r = m \<or> (\<exists>j \<in> set (i # ns). k q * index + j < heap_size q \<and>
              snd ?r = k q * index + j \<and> prio_at q (k q * index + j) = Some (fst ?r))"
  proof -
    from IH have "?r = ?m1 \<or> (\<exists>j \<in> set ns. k q * index + j < heap_size q \<and>
              snd ?r = k q * index + j \<and> prio_at q (k q * index + j) = Some (fst ?r))"
      by blast
    then show ?thesis
    proof
      assume r: "?r = ?m1"
      from step have "?m1 = m \<or> (?c < heap_size q \<and> snd ?m1 = ?c \<and> prio_at q ?c = Some (fst ?m1))"
        by blast
      then show ?thesis using r by auto
    next
      assume "\<exists>j \<in> set ns. k q * index + j < heap_size q \<and>
              snd ?r = k q * index + j \<and> prio_at q (k q * index + j) = Some (fst ?r)"
      then show ?thesis by auto
    qed
  qed
  have c: "\<forall>j \<in> set (i # ns). k q * index + j < heap_size q \<longrightarrow>
              js_le (Some (fst ?r)) (prio_at q (k q * index + j))"
  proof
    fix j assume j: "j \<in> set (i # ns)"
    show "k q * index + j < heap_size q \<longrightarrow> js_le (Some (fst ?r)) (prio_at q (k q * index + j))"
    proof
      assume lt: "k q * index + j < heap_size q"
      show "js_le (Some (fst ?r)) (prio_at q (k q * index + j))"
      proof (cases "j \<in> set ns")
        case True
        then show ?thesis using IH lt by blast
      next
        case False
        then have ji: "j = i" using j by simp
        then obtain p where p: "prio_at q ?c = Some p" using lt assms by (auto simp: bounded_def)
        have "js_le (Some (fst ?m1)) (prio_at q ?c)" using step lt ji by blast
        then have "fst ?m1 \<le> p" using p by simp
        moreover have "fst ?r \<le> fst ?m1" using IH by blast
        ultimately show ?thesis using p ji by simp
      qed
    qed
  qed
  show ?case using a b c by simp
qed

lemma find_min_child_spec:
  assumes "bounded q" "k q * index + 1 < heap_size q" "1 \<le> k q"
  shows "fst (find_min_child q index) < real MAX_SAFE_INTEGER \<and>
         k q * index < snd (find_min_child q index) \<and>
         snd (find_min_child q index) \<le> k q * index + k q \<and>
         snd (find_min_child q index) < heap_size q \<and>
         prio_at q (snd (find_min_child q index)) = Some (fst (find_min_child q index)) \<and>
         (\<forall>c. k q * index < c \<and> c \<le> k q * index + k q \<and> c < heap_size q \<longrightarrow>
              js_le (Some (fst (find_min_child q index))) (prio_at q c))"
proof -
  let ?m0 = "(real MAX_SAFE_INTEGER, 0::nat)"
  let ?ns = "[1 ..< k q + 1]"
  let ?r = "find_min_child q index"
  have k1: "1 \<le> k q" by (rule assms(3))
  note F = scan_fold [OF assms(1), of index ?m0 ?ns, folded find_min_child_def]
  have one: "1 \<in> set ?ns" using k1 by auto
  obtain p where p: "prio_at q (k q * index + 1) = Some p" "p < real MAX_SAFE_INTEGER"
    using assms by (auto simp: bounded_def)
  have "js_le (Some (fst ?r)) (prio_at q (k q * index + 1))"
    using F one assms(2) by blast
  then have lt: "fst ?r < real MAX_SAFE_INTEGER" using p by simp
  then have "?r \<noteq> ?m0" by auto
  then obtain i where i: "i \<in> set ?ns" "k q * index + i < heap_size q"
      "snd ?r = k q * index + i" "prio_at q (k q * index + i) = Some (fst ?r)"
    using F by blast
  have all: "js_le (Some (fst ?r)) (prio_at q c)"
    if "k q * index < c" "c \<le> k q * index + k q" "c < heap_size q" for c
  proof -
    have "c - k q * index \<in> set ?ns" using that by auto
    moreover have "k q * index + (c - k q * index) = c" using that by simp
    ultimately show ?thesis using F that(3) by metis
  qed
  show ?thesis using lt i all by auto
qed


definition pv :: "'a pq \<Rightarrow> nat \<Rightarrow> number" where
  "pv q i = (case prio_at q i of Some p \<Rightarrow> p | None \<Rightarrow> 0)"

lemma bounded_prio:
  "bounded q \<Longrightarrow> i < heap_size q \<Longrightarrow> prio_at q i = Some (pv q i) \<and> pv q i < real MAX_SAFE_INTEGER"
  by (auto simp: bounded_def pv_def)

lemma pv_swap:
  "pv (swap_nodes q i j) l = (if l = j then pv q i else if l = i then pv q j else pv q l)"
  by (simp add: pv_def prio_at_swap)

lemma bounded_swap:
  "bounded q \<Longrightarrow> i < heap_size q \<Longrightarrow> j < heap_size q \<Longrightarrow> bounded (swap_nodes q i j)"
  by (simp add: bounded_def prio_at_swap)

lemma le_mult_self: "1 \<le> (kk::nat) \<Longrightarrow> n \<le> kk * n"
  by (cases kk) auto

lemma parent_iff:
  assumes "1 \<le> (kk::nat)" "0 < (i::nat)"
  shows "((i - 1) div kk = p) = (kk * p < i \<and> i \<le> kk * p + kk)"
proof -
  have pos: "0 < kk" using assms(1) by linarith
  have "((i - 1) div kk = p) = (p \<le> (i - 1) div kk \<and> (i - 1) div kk < Suc p)" by auto
  also have "\<dots> = (p * kk \<le> i - 1 \<and> i - 1 < Suc p * kk)"
    using pos by (simp only: less_eq_div_iff_mult_less_eq div_less_iff_less_mult)
  also have "\<dots> = (kk * p < i \<and> i \<le> kk * p + kk)"
    using assms(2) by (auto simp: mult.commute)
  finally show ?thesis .
qed

lemma parent_child:
  assumes "1 \<le> (kk::nat)" "0 < (i::nat)" "(i - 1) div kk = p"
  shows "kk * p < i" "i \<le> kk * p + kk"
  using parent_iff [OF assms(1,2), of p] assms(3) by blast+

lemma child_parent:
  assumes "1 \<le> (kk::nat)" "kk * p < (i::nat)" "i \<le> kk * p + kk"
  shows "(i - 1) div kk = p"
proof -
  have "0 < i" using assms(2) by simp
  then show ?thesis using parent_iff [OF assms(1), of i p] assms(2,3) by blast
qed

lemma sift_down:
  assumes "1 \<le> k q" and "bounded q" and "j \<le> index"
    and "\<forall>i. 0 < i \<and> i < heap_size q \<and> j \<le> (i - 1) div k q \<and> (i - 1) div k q \<noteq> index
           \<longrightarrow> pv q ((i - 1) div k q) \<le> pv q i"
    and "0 < index \<and> j \<le> (index - 1) div k q \<longrightarrow>
           (\<forall>i. 0 < i \<and> i < heap_size q \<and> (i - 1) div k q = index
              \<longrightarrow> pv q ((index - 1) div k q) \<le> pv q i)"
  shows "bounded (restoreDown q index) \<and>
         (\<forall>i. 0 < i \<and> i < heap_size q \<and> j \<le> (i - 1) div k q
            \<longrightarrow> pv (restoreDown q index) ((i - 1) div k q) \<le> pv (restoreDown q index) i)"
  using assms
proof (induction q index rule: restoreDown.induct)
  case (1 q index)
  note k1 = "1.prems"(1) and bd = "1.prems"(2) and jle = "1.prems"(3)
    and others = "1.prems"(4) and grand = "1.prems"(5)
  let ?kk = "k q" and ?hs = "heap_size q"
  show ?case
  proof (cases "?kk * index + 1 < ?hs")
    case False
    then have leaf: "restoreDown q index = q" by (intro restoreDown_leaf) simp
    have "pv q ((i - 1) div ?kk) \<le> pv q i"
      if i: "0 < i" "i < ?hs" "j \<le> (i - 1) div ?kk" for i
    proof -
      have "(i - 1) div ?kk \<noteq> index"
      proof
        assume "(i - 1) div ?kk = index"
        then have "?kk * index < i" by (rule parent_child(1) [OF k1 i(1)])
        then show False using False i(2) by simp
      qed
      then show ?thesis using others i by blast
    qed
    then show ?thesis using leaf bd by simp
  next
    case True
    let ?m = "find_min_child q index"
    let ?mc = "snd ?m"
    note S = find_min_child_spec [OF bd True k1]
    have ne: "fst ?m \<noteq> real MAX_SAFE_INTEGER" using S by simp
    have mc_hs: "?mc < ?hs" and mc_lo: "?kk * index < ?mc" and mc_hi: "?mc \<le> ?kk * index + ?kk"
      using S by simp_all
    have idx_mc: "index < ?mc"
    proof -
      have "index \<le> ?kk * index" by (rule le_mult_self [OF k1])
      then show ?thesis using mc_lo by linarith
    qed
    have idx_hs: "index < ?hs" using idx_mc mc_hs by simp
    have mc_pos: "0 < ?mc" using idx_mc by simp
    have par_mc: "(?mc - 1) div ?kk = index"
      by (rule child_parent [OF k1 mc_lo mc_hi])
    have pm: "pv q ?mc = fst ?m" using S by (simp add: pv_def)
    have minc: "pv q ?mc \<le> pv q c" if "0 < c" "c < ?hs" "(c - 1) div ?kk = index" for c
    proof -
      have "?kk * index < c \<and> c \<le> ?kk * index + ?kk"
        using parent_child [OF k1 that(1) that(3)] by simp
      then have "js_le (Some (fst ?m)) (prio_at q c)" using S that(2) by blast
      then show ?thesis using bounded_prio [OF bd that(2)] pm by (metis js_le.simps(1))
    qed
    let ?c = "js_gt (prio_at q index) (prio_at q ?mc)"
    have c_eq: "?c = (pv q index > pv q ?mc)"
      using bounded_prio [OF bd idx_hs] bounded_prio [OF bd mc_hs] by (metis js_gt.simps(1))
    define q1 where "q1 = (if ?c then swap_nodes q index ?mc else q)"
    have unf: "restoreDown q index = restoreDown q1 ?mc"
      using ne by (subst restoreDown_unfold) (simp add: q1_def)
    have q1_k: "k q1 = ?kk" and q1_hs: "heap_size q1 = ?hs" by (simp_all add: q1_def)
    have q1_bd: "bounded q1" using bd bounded_swap [OF bd idx_hs mc_hs] by (simp add: q1_def)
    have pv1: "pv q1 l = (if ?c then (if l = ?mc then pv q index else if l = index then pv q ?mc
                                       else pv q l) else pv q l)" for l
      by (simp add: q1_def pv_swap)
    have root_le: "pv q1 index \<le> pv q ?mc"
      using c_eq idx_mc by (simp add: pv1)
    have others1: "\<forall>i. 0 < i \<and> i < heap_size q1 \<and> j \<le> (i - 1) div k q1 \<and>
        (i - 1) div k q1 \<noteq> ?mc \<longrightarrow> pv q1 ((i - 1) div k q1) \<le> pv q1 i"
    proof (intro allI impI)
      fix i
      assume "0 < i \<and> i < heap_size q1 \<and> j \<le> (i - 1) div k q1 \<and> (i - 1) div k q1 \<noteq> ?mc"
      then have i: "0 < i" "i < ?hs" "j \<le> (i - 1) div ?kk" "(i - 1) div ?kk \<noteq> ?mc"
        by (simp_all add: q1_k q1_hs)
      let ?p = "(i - 1) div ?kk"
      have goal: "pv q1 ?p \<le> pv q1 i"
      proof (cases "?p = index")
        case True
        then have lo: "?kk * index < i" by (rule parent_child(1) [OF k1 i(1)])
        have "index \<le> ?kk * index" by (rule le_mult_self [OF k1])
        then have i_ne: "i \<noteq> index" using lo by linarith
        have m_le: "pv q ?mc \<le> pv q i" using minc [OF i(1) i(2) True] .
        show ?thesis
        proof (cases ?c)
          case True
          then show ?thesis using \<open>?p = index\<close> i_ne m_le c_eq idx_mc
            by (simp add: pv1)
        next
          case False
          then show ?thesis using \<open>?p = index\<close> m_le c_eq by (simp add: pv1)
        qed
      next
        case False
        then have old: "pv q ?p \<le> pv q i" using others i by blast
        have i_ne_mc: "i \<noteq> ?mc" using False par_mc by auto
        show ?thesis
        proof (cases ?c)
          case False
          then show ?thesis using old by (simp add: pv1)
        next
          case True
          show ?thesis
          proof (cases "i = index")
            case False
            then show ?thesis using True old i_ne_mc i(4) \<open>?p \<noteq> index\<close> by (simp add: pv1)
          next
            case ii: True
            then have "0 < index" "j \<le> (index - 1) div ?kk" using i by simp_all
            then have "pv q ((index - 1) div ?kk) \<le> pv q ?mc"
              using grand mc_pos mc_hs par_mc by blast
            then show ?thesis using True ii i(4) \<open>?p \<noteq> index\<close> idx_mc by (simp add: pv1)
          qed
        qed
      qed
      then show "pv q1 ((i - 1) div k q1) \<le> pv q1 i" by (simp add: q1_k)
    qed
    have grand1: "0 < ?mc \<and> j \<le> (?mc - 1) div k q1 \<longrightarrow>
        (\<forall>i. 0 < i \<and> i < heap_size q1 \<and> (i - 1) div k q1 = ?mc
           \<longrightarrow> pv q1 ((?mc - 1) div k q1) \<le> pv q1 i)"
    proof (intro impI allI)
      fix i
      assume "0 < i \<and> i < heap_size q1 \<and> (i - 1) div k q1 = ?mc"
      then have i: "0 < i" "i < ?hs" "(i - 1) div ?kk = ?mc" by (simp_all add: q1_k q1_hs)
      have lo: "?kk * ?mc < i" by (rule parent_child(1) [OF k1 i(1) i(3)])
      have "?mc \<le> ?kk * ?mc" by (rule le_mult_self [OF k1])
      then have gt: "?mc < i" using lo by linarith
      have "j \<le> ?mc" using jle idx_mc by simp
      moreover have "?mc \<noteq> index" using idx_mc by simp
      ultimately have "pv q ?mc \<le> pv q i" using others i by metis
      moreover have "pv q1 i = pv q i" using gt idx_mc by (simp add: pv1)
      ultimately show "pv q1 ((?mc - 1) div k q1) \<le> pv q1 i"
        using root_le par_mc by (simp add: q1_k)
    qed
    have jle1: "j \<le> ?mc" using jle idx_mc by simp
    have q1_form: "q1 = (if js_gt (js_get (heap q) (index * 2)) (js_get (heap q) (?mc * 2))
                          then swap_nodes q index ?mc else q)"
      by (simp add: q1_def prio_at_def)
    have k1': "1 \<le> k q1" using k1 by (simp add: q1_k)
    have "bounded (restoreDown q1 ?mc) \<and>
         (\<forall>i. 0 < i \<and> i < heap_size q1 \<and> j \<le> (i - 1) div k q1
            \<longrightarrow> pv (restoreDown q1 ?mc) ((i - 1) div k q1) \<le> pv (restoreDown q1 ?mc) i)"
      using "1.IH" [OF refl ne, folded q1_form, OF k1' q1_bd jle1 others1 grand1] .
    then show ?thesis using unf by (simp add: q1_k q1_hs)
  qed
qed

section \<open>dequeue keeps the heap property\<close>

lemma parent_less: "0 < i \<Longrightarrow> (i - 1) div kk < (i::nat)"
  by (metis diff_less div_le_dividend le_less_trans zero_less_one)

lemma heap_ok_iff:
  "heap_ok q =
     (\<forall>i. 0 < i \<and> i < heap_size q \<longrightarrow>
          js_le (prio_at q ((i - 1) div k q)) (prio_at q i))"
  by (auto simp: heap_ok_def list_all_iff prio_at_def)

lemma heap_ok_pv:
  assumes "bounded q"
  shows "heap_ok q = (\<forall>i. 0 < i \<and> i < heap_size q \<longrightarrow> pv q ((i - 1) div k q) \<le> pv q i)"
proof -
  have "js_le (prio_at q ((i - 1) div k q)) (prio_at q i) = (pv q ((i - 1) div k q) \<le> pv q i)"
    if "0 < i" "i < heap_size q" for i
  proof -
    have "(i - 1) div k q < heap_size q" using parent_less [OF that(1), of "k q"] that(2) by simp
    then show ?thesis
      using bounded_prio [OF assms that(2)] bounded_prio [OF assms, of "(i - 1) div k q"]
      by (metis js_le.simps(1))
  qed
  then show ?thesis unfolding heap_ok_iff by blast
qed

lemma restoreDown_root:
  assumes "1 \<le> k q" "bounded q"
    and "\<forall>i. 0 < i \<and> i < heap_size q \<and> (i - 1) div k q \<noteq> 0 \<longrightarrow> pv q ((i - 1) div k q) \<le> pv q i"
  shows "heap_ok (restoreDown q 0) \<and> bounded (restoreDown q 0)"
proof -
  have "bounded (restoreDown q 0) \<and>
         (\<forall>i. 0 < i \<and> i < heap_size q \<and> 0 \<le> (i - 1) div k q
            \<longrightarrow> pv (restoreDown q 0) ((i - 1) div k q) \<le> pv (restoreDown q 0) i)"
    by (rule sift_down [OF assms(1,2)]) (use assms(3) in auto)
  then show ?thesis by (simp add: heap_ok_pv)
qed

text \<open>The queue \<open>dequeue\<close> hands to \<open>restoreDown\<close>.\<close>

definition last_to_root :: "'a pq \<Rightarrow> 'a pq" where
  "last_to_root q =
     (let n = heap_size q - 1;
          h0 = js_set (heap q) 0 (js_get (heap q) (n * 2))
      in q\<lparr>heap_size := n,
           exited_indexes := js_set (exited_indexes q) (exited_indexes_count q) (js_get (heap q) 1),
           exited_indexes_count := exited_indexes_count q + 1,
           heap := js_set h0 1 (js_get h0 (n * 2 + 1))\<rparr>)"

lemma dequeue_unfold:
  "heap_size q \<noteq> 0 \<Longrightarrow>
   dequeue q = (Inr (elem_at q 0), restoreDown (last_to_root q) 0)"
  by (simp add: dequeue_def last_to_root_def Let_def elem_at_def link_at_def)

lemma last_to_root_fields [simp]:
  "heap_size (last_to_root q) = heap_size q - 1"
  "k (last_to_root q) = k q"
  "elems (last_to_root q) = elems q"
  "elems_props (last_to_root q) = elems_props q"
  "elems_size (last_to_root q) = elems_size q"
  by (simp_all add: last_to_root_def Let_def)

lemma prio_at_last_to_root:
  "prio_at (last_to_root q) i = (if i = 0 then prio_at q (heap_size q - 1) else prio_at q i)"
proof -
  have "i * 2 \<noteq> 1" by presburger
  then show ?thesis by (auto simp: last_to_root_def Let_def prio_at_def)
qed

lemma link_at_last_to_root:
  "link_at (last_to_root q) i = (if i = 0 then link_at q (heap_size q - 1) else link_at q i)"
proof (cases "heap_size q - 1 = 0")
  case True
  then show ?thesis by (auto simp: last_to_root_def Let_def link_at_def)
next
  case False
  then show ?thesis by (auto simp: last_to_root_def Let_def link_at_def)
qed

lemma elem_at_last_to_root:
  "elem_at (last_to_root q) i = (if i = 0 then elem_at q (heap_size q - 1) else elem_at q i)"
  by (simp add: elem_at_def link_at_last_to_root elems_get_def split: option.splits)

lemma pv_last_to_root:
  "pv (last_to_root q) i = (if i = 0 then pv q (heap_size q - 1) else pv q i)"
  by (simp add: pv_def prio_at_last_to_root)

lemma dequeue_heap_ok:
  assumes "1 \<le> k q" "bounded q" "heap_ok q" "heap_size q \<noteq> 0"
  shows "heap_ok (snd (dequeue q)) \<and> bounded (snd (dequeue q))"
proof -
  let ?p = "last_to_root q"
  have bp: "bounded ?p"
    using assms(2,4) by (auto simp: bounded_def prio_at_last_to_root)
  have "pv ?p ((i - 1) div k ?p) \<le> pv ?p i"
    if "0 < i" "i < heap_size ?p" "(i - 1) div k ?p \<noteq> 0" for i
  proof -
    have "pv q ((i - 1) div k q) \<le> pv q i"
      using assms(3) that(1,2) by (simp add: heap_ok_pv [OF assms(2)])
    then show ?thesis using that by (simp add: pv_last_to_root)
  qed
  then have "heap_ok (restoreDown ?p 0) \<and> bounded (restoreDown ?p 0)"
    by (intro restoreDown_root) (use assms(1) bp in auto)
  then show ?thesis using assms(4) by (simp add: dequeue_unfold)
qed

section \<open>The nodes of the heap\<close>

text \<open>
  The root of a heap has the least priority. \<open>nodes q\<close> lists the pairs of a priority and
  the element its link names, by heap position; the sift down permutes them.
\<close>

lemma heap_ok_root_min:
  assumes "bounded q" "heap_ok q"
  shows "i < heap_size q \<Longrightarrow> pv q 0 \<le> pv q i"
proof (induction i rule: less_induct)
  case (less i)
  show ?case
  proof (cases "i = 0")
    case True
    then show ?thesis by simp
  next
    case False
    then have pos: "0 < i" by simp
    let ?p = "(i - 1) div k q"
    have lt: "?p < i" by (rule parent_less [OF pos])
    then have "pv q 0 \<le> pv q ?p" using less.IH less.prems by simp
    moreover have "pv q ?p \<le> pv q i"
      using assms(2) pos less.prems by (simp add: heap_ok_pv [OF assms(1)])
    ultimately show ?thesis by linarith
  qed
qed

definition nodes :: "'a pq \<Rightarrow> (number option \<times> 'a option) list" where
  "nodes q = map (\<lambda>i. (prio_at q i, elem_at q i)) [0 ..< heap_size q]"

lemma length_nodes [simp]: "length (nodes q) = heap_size q"
  by (simp add: nodes_def)

lemma nth_nodes [simp]: "i < heap_size q \<Longrightarrow> nodes q ! i = (prio_at q i, elem_at q i)"
  by (simp add: nodes_def)

lemma nodes_swap:
  assumes "i < heap_size q" "j < heap_size q"
  shows "nodes (swap_nodes q i j) = (nodes q)[i := nodes q ! j, j := nodes q ! i]"
  using assms
  by (intro nth_equalityI) (auto simp: prio_at_swap elem_at_swap nth_list_update)

lemma mset_nodes_swap:
  assumes "i < heap_size q" "j < heap_size q"
  shows "mset (nodes (swap_nodes q i j)) = mset (nodes q)"
proof -
  have "mset ((nodes q)[i := nodes q ! j, j := nodes q ! i]) = mset (nodes q)"
    by (rule mset_swap) (simp_all add: assms)
  then show ?thesis by (simp only: nodes_swap [OF assms])
qed

lemma mset_nodes_restoreDown: "mset (nodes (restoreDown q index)) = mset (nodes q)"
proof (induction q index rule: restoreDown.induct)
  case (1 q index)
  let ?m = "find_min_child q index"
  show ?case
  proof (cases "fst ?m = real MAX_SAFE_INTEGER")
    case True
    then show ?thesis by (subst restoreDown_unfold) simp
  next
    case False
    then have b: "index < snd ?m" "snd ?m < heap_size q"
      using find_min_child_bounds [of q index] by simp_all
    then have i: "index < heap_size q" by simp
    define q1 where "q1 = (if js_gt (prio_at q index) (prio_at q (snd ?m))
                           then swap_nodes q index (snd ?m) else q)"
    have q1_form: "q1 = (if js_gt (js_get (heap q) (index * 2)) (js_get (heap q) (snd ?m * 2))
                          then swap_nodes q index (snd ?m) else q)"
      by (simp add: q1_def prio_at_def)
    have "mset (nodes q1) = mset (nodes q)"
      using mset_nodes_swap [OF i b(2)] by (simp add: q1_def)
    moreover have "mset (nodes (restoreDown q1 (snd ?m))) = mset (nodes q1)"
      using "1.IH" [OF refl False, folded q1_form] .
    moreover have "restoreDown q index = restoreDown q1 (snd ?m)"
      using False by (subst restoreDown_unfold) (simp add: q1_def)
    ultimately show ?thesis by simp
  qed
qed

lemma nodes_last_to_root:
  assumes "heap_size q \<noteq> 0"
  shows "mset (nodes (last_to_root q)) = mset (nodes q) - {#(prio_at q 0, elem_at q 0)#}"
proof (cases "heap_size q = 1")
  case True
  then show ?thesis by (simp add: nodes_def)
next
  case False
  then obtain n where n: "heap_size q = Suc (Suc n)"
    using assms by (metis One_nat_def Suc_pred not0_implies_Suc neq0_conv)
  let ?f = "\<lambda>i. (prio_at q i, elem_at q i)"
  have "[0 ..< Suc (Suc n)] = [0 ..< Suc n] @ [Suc n]" by simp
  moreover have "[0 ..< Suc n] = 0 # [Suc 0 ..< Suc n]"
    by (simp add: upt_conv_Cons del: upt_Suc)
  ultimately have u: "[0 ..< Suc (Suc n)] = (0 # [Suc 0 ..< Suc n]) @ [Suc n]" by simp
  have u': "[0 ..< Suc n] = 0 # [Suc 0 ..< Suc n]"
    by (simp add: upt_conv_Cons del: upt_Suc)
  have old: "nodes q = ?f 0 # map ?f [Suc 0 ..< Suc n] @ [?f (Suc n)]"
    by (simp add: nodes_def n u del: upt_Suc)
  have "nodes (last_to_root q)
        = map (\<lambda>i. (prio_at (last_to_root q) i, elem_at (last_to_root q) i)) [0 ..< Suc n]"
    by (simp add: nodes_def n)
  also have "\<dots> = ?f (Suc n) # map ?f [Suc 0 ..< Suc n]"
    by (simp add: u' n prio_at_last_to_root elem_at_last_to_root del: upt_Suc)
  finally have new: "nodes (last_to_root q) = ?f (Suc n) # map ?f [Suc 0 ..< Suc n]" .
  show ?thesis by (simp add: old new)
qed

lemma dequeue_nodes:
  assumes "heap_size q \<noteq> 0"
  shows "fst (dequeue q) = Inr (elem_at q 0) \<and>
         mset (nodes (snd (dequeue q))) = mset (nodes q) - {#(prio_at q 0, elem_at q 0)#}"
  using assms by (simp add: dequeue_unfold mset_nodes_restoreDown nodes_last_to_root)

section \<open>The sift up\<close>

lemma restoreUp_unfold:
  assumes "1 \<le> k q"
  shows "restoreUp q index =
     (if index = 0 then q
      else if js_lt (prio_at q index) (prio_at q ((index - 1) div k q))
      then restoreUp (swap_nodes q index ((index - 1) div k q)) ((index - 1) div k q)
      else q)"
proof (cases "index = 0")
  case True
  have "(- 1) div int (k q) < 0" using assms by (simp add: div_eq_minus1)
  then show ?thesis using True assms by (subst restoreUp.simps) (simp add: Let_def)
next
  case False
  then have par: "(int index - 1) div int (k q) = int ((index - 1) div k q)"
    by (simp add: zdiv_int of_nat_diff)
  show ?thesis
    by (subst restoreUp.simps, unfold Let_def par)
       (use False assms in \<open>simp add: prio_at_def\<close>)
qed

lemma sift_up:
  assumes "1 \<le> k q" "bounded q" "index < heap_size q"
    and "\<forall>i. 0 < i \<and> i < heap_size q \<and> i \<noteq> index \<longrightarrow> pv q ((i - 1) div k q) \<le> pv q i"
    and "0 < index \<longrightarrow>
           (\<forall>c. 0 < c \<and> c < heap_size q \<and> (c - 1) div k q = index
              \<longrightarrow> pv q ((index - 1) div k q) \<le> pv q c)"
  shows "heap_ok (restoreUp q index) \<and> bounded (restoreUp q index)"
  using assms
proof (induction index arbitrary: q rule: less_induct)
  case (less index)
  note k1 = less.prems(1) and bd = less.prems(2) and ihs = less.prems(3)
    and others = less.prems(4) and grand = less.prems(5)
  let ?kk = "k q" and ?hs = "heap_size q"
  show ?case
  proof (cases "index = 0")
    case True
    then have "restoreUp q index = q" using k1 by (subst restoreUp_unfold) simp_all
    moreover have "heap_ok q" using others True by (simp add: heap_ok_pv [OF bd])
    ultimately show ?thesis using bd by simp
  next
    case False
    then have ipos: "0 < index" by simp
    let ?p = "(index - 1) div ?kk"
    have p_lt: "?p < index" by (rule parent_less [OF ipos])
    have p_hs: "?p < ?hs" using p_lt ihs by simp
    let ?c = "js_lt (prio_at q index) (prio_at q ?p)"
    have c_eq: "?c = (pv q index < pv q ?p)"
      using bounded_prio [OF bd ihs] bounded_prio [OF bd p_hs] by (metis js_lt.simps(1))
    show ?thesis
    proof (cases ?c)
      case False
      then have r: "restoreUp q index = q"
        using k1 ipos by (subst restoreUp_unfold) simp_all
      have "pv q ((i - 1) div ?kk) \<le> pv q i" if "0 < i" "i < ?hs" for i
      proof (cases "i = index")
        case True
        then show ?thesis using False c_eq by simp
      next
        case False
        then show ?thesis using others that by blast
      qed
      then have "heap_ok q" by (simp add: heap_ok_pv [OF bd])
      then show ?thesis using r bd by simp
    next
      case True
      define q1 where "q1 = swap_nodes q index ?p"
      have r: "restoreUp q index = restoreUp q1 ?p"
        using k1 ipos True by (subst restoreUp_unfold) (simp_all add: q1_def)
      have q1_k: "k q1 = ?kk" and q1_hs: "heap_size q1 = ?hs" by (simp_all add: q1_def)
      have q1_bd: "bounded q1" using bounded_swap [OF bd ihs p_hs] by (simp add: q1_def)
      have pv1: "pv q1 l = (if l = ?p then pv q index else if l = index then pv q ?p else pv q l)"
        for l by (simp add: q1_def pv_swap)
      have lt: "pv q index < pv q ?p" using True c_eq by simp
      have others1: "\<forall>i. 0 < i \<and> i < heap_size q1 \<and> i \<noteq> ?p
          \<longrightarrow> pv q1 ((i - 1) div k q1) \<le> pv q1 i"
      proof (intro allI impI)
        fix i
        assume "0 < i \<and> i < heap_size q1 \<and> i \<noteq> ?p"
        then have i: "0 < i" "i < ?hs" "i \<noteq> ?p" by (simp_all add: q1_hs)
        let ?pi = "(i - 1) div ?kk"
        have pi_lt: "?pi < i" by (rule parent_less [OF i(1)])
        have "pv q1 ?pi \<le> pv q1 i"
        proof (cases "i = index")
          case True
          then show ?thesis using lt p_lt by (simp add: pv1)
        next
          case ne: False
          then have old: "pv q ?pi \<le> pv q i" using others i by blast
          show ?thesis
          proof (cases "?pi = ?p")
            case True
            then show ?thesis using old lt ne i(3) by (simp add: pv1)
          next
            case np: False
            show ?thesis
            proof (cases "?pi = index")
              case True
              then have "pv q ?p \<le> pv q i" using grand ipos i by blast
              then show ?thesis using True ne i(3) np by (simp add: pv1)
            next
              case False
              then show ?thesis using old ne np i(3) by (simp add: pv1)
            qed
          qed
        qed
        then show "pv q1 ((i - 1) div k q1) \<le> pv q1 i" by (simp add: q1_k)
      qed
      have grand1: "0 < ?p \<longrightarrow>
           (\<forall>c. 0 < c \<and> c < heap_size q1 \<and> (c - 1) div k q1 = ?p
              \<longrightarrow> pv q1 ((?p - 1) div k q1) \<le> pv q1 c)"
      proof (intro impI allI)
        fix c
        assume ppos: "0 < ?p" and "0 < c \<and> c < heap_size q1 \<and> (c - 1) div k q1 = ?p"
        then have c: "0 < c" "c < ?hs" "(c - 1) div ?kk = ?p" by (simp_all add: q1_k q1_hs)
        let ?pp = "(?p - 1) div ?kk"
        have pp_lt: "?pp < ?p" by (rule parent_less [OF ppos])
        have c_gt: "?p < c" using parent_less [OF c(1), of ?kk] c(3) by simp
        have e1: "pv q ?pp \<le> pv q ?p" using others ppos p_hs p_lt by (metis less_irrefl)
        have pv_pp: "pv q1 ?pp = pv q ?pp" using pp_lt p_lt by (simp add: pv1)
        have "pv q ?pp \<le> pv q1 c"
        proof (cases "c = index")
          case True
          then show ?thesis using e1 p_lt by (simp add: pv1)
        next
          case False
          then have "pv q ?p \<le> pv q c" using others c by metis
          then show ?thesis using e1 False c_gt by (simp add: pv1)
        qed
        then show "pv q1 ((?p - 1) div k q1) \<le> pv q1 c" using pv_pp by (simp add: q1_k)
      qed
      have "heap_ok (restoreUp q1 ?p) \<and> bounded (restoreUp q1 ?p)"
        by (rule less.IH [OF p_lt]) (use k1 q1_bd p_hs others1 grand1 in \<open>simp_all add: q1_k q1_hs\<close>)
      then show ?thesis using r by simp
    qed
  qed
qed

section \<open>enqueue and the constructor keep the heap property\<close>

text \<open>The queue \<open>enqueue\<close> hands to \<open>restoreUp\<close>.\<close>

definition appended :: "'a pq \<Rightarrow> 'a \<Rightarrow> number \<Rightarrow> 'a pq" where
  "appended q elem prio =
     (let q1 = fst (addElem q elem); index = snd (addElem q elem)
      in q1\<lparr>heap := js_set (js_set (heap q1) (heap_size q1 * 2) (Some prio))
                        (heap_size q1 * 2 + 1) index,
            heap_size := heap_size q1 + 1\<rparr>)"

lemma addElem_fields [simp]:
  "heap_size (fst (addElem q elem)) = heap_size q"
  "k (fst (addElem q elem)) = k q"
  "heap (fst (addElem q elem)) = heap q"
  by (simp_all add: addElem_def Let_def)

lemma enqueue_unfold: "enqueue q elem prio = restoreUp (appended q elem prio) (heap_size q)"
  by (simp add: enqueue_def appended_def Let_def split_beta)

lemma appended_fields [simp]:
  "heap_size (appended q elem prio) = heap_size q + 1"
  "k (appended q elem prio) = k q"
  by (simp_all add: appended_def Let_def)

lemma prio_at_appended:
  "prio_at (appended q elem prio) i = (if i = heap_size q then Some prio else prio_at q i)"
proof -
  have "heap_size q * 2 + 1 \<noteq> i * 2" by presburger
  then show ?thesis by (auto simp: appended_def Let_def prio_at_def)
qed

lemma link_at_appended:
  "link_at (appended q elem prio) i =
     (if i = heap_size q then snd (addElem q elem) else link_at q i)"
proof -
  have "heap_size q * 2 \<noteq> i * 2 + 1" by presburger
  then show ?thesis by (auto simp: appended_def Let_def link_at_def)
qed

lemma pv_appended:
  "pv (appended q elem prio) i = (if i = heap_size q then prio else pv q i)"
  by (simp add: pv_def prio_at_appended)

lemma enqueue_heap_ok:
  assumes "1 \<le> k q" "bounded q" "heap_ok q"
    and "prio < real MAX_SAFE_INTEGER" "heap_size q < MAX_SAFE_INTEGER"
  shows "heap_ok (enqueue q elem prio) \<and> bounded (enqueue q elem prio)"
proof -
  let ?a = "appended q elem prio"
  have ba: "bounded ?a"
    using assms(2,4,5) by (auto simp: bounded_def prio_at_appended)
  have others: "\<forall>i. 0 < i \<and> i < heap_size ?a \<and> i \<noteq> heap_size q
      \<longrightarrow> pv ?a ((i - 1) div k ?a) \<le> pv ?a i"
  proof (intro allI impI)
    fix i
    assume "0 < i \<and> i < heap_size ?a \<and> i \<noteq> heap_size q"
    then have i: "0 < i" "i < heap_size q" by simp_all
    have "(i - 1) div k q < i" by (rule parent_less [OF i(1)])
    moreover have "pv q ((i - 1) div k q) \<le> pv q i"
      using assms(3) i by (simp add: heap_ok_pv [OF assms(2)])
    ultimately show "pv ?a ((i - 1) div k ?a) \<le> pv ?a i"
      using i by (simp add: pv_appended)
  qed
  have grand: "0 < heap_size q \<longrightarrow>
      (\<forall>c. 0 < c \<and> c < heap_size ?a \<and> (c - 1) div k ?a = heap_size q
         \<longrightarrow> pv ?a ((heap_size q - 1) div k ?a) \<le> pv ?a c)"
  proof (intro impI allI)
    fix c
    assume "0 < c \<and> c < heap_size ?a \<and> (c - 1) div k ?a = heap_size q"
    then have c: "0 < c" "c < heap_size q + 1" "(c - 1) div k q = heap_size q" by simp_all
    have "(c - 1) div k q < c" by (rule parent_less [OF c(1)])
    then have False using c by simp
    then show "pv ?a ((heap_size q - 1) div k ?a) \<le> pv ?a c" ..
  qed
  have "heap_ok (restoreUp ?a (heap_size q)) \<and> bounded (restoreUp ?a (heap_size q))"
    by (rule sift_up) (use assms(1) ba others grand in simp_all)
  then show ?thesis by (simp add: enqueue_unfold)
qed

text \<open>The constructor: what the loading loop leaves, and the sweep.\<close>

lemma load_fold:
  assumes "n \<le> length rng"
  shows "prio_at (foldl (load_step rng) q [0 ..< n]) i
           = (if i < n then Some (priority (rng ! i)) else prio_at q i) \<and>
         link_at (foldl (load_step rng) q [0 ..< n]) i
           = (if i < n then Some (real i) else link_at q i) \<and>
         js_get (elems (foldl (load_step rng) q [0 ..< n])) i
           = (if i < n then Some (element (rng ! i)) else js_get (elems q) i) \<and>
         elems_props (foldl (load_step rng) q [0 ..< n]) = elems_props q"
  using assms
proof (induction n)
  case 0
  show ?case by simp
next
  case (Suc n)
  have ne: "n * 2 + 1 \<noteq> i * 2" "n * 2 \<noteq> i * 2 + 1" by presburger+
  show ?case
    using Suc ne
    by (auto simp: load_step_def Let_def prio_at_def link_at_def
        simp del: mult_Suc_right mult_Suc)
qed

lemma load_pairs_nodes:
  "nodes (load_pairs rng kk) = map (\<lambda>p. (Some (priority p), Some (element p))) rng"
proof -
  let ?ini = "empty_pq\<lparr>k := kk, heap_size := length rng, elems_size := length rng\<rparr> :: 'a pq"
  let ?q = "foldl (load_step rng) ?ini [0 ..< length rng]"
  have lp: "load_pairs rng kk = ?q" by (simp add: load_pairs_def Let_def)
  have "prio_at ?q i = Some (priority (rng ! i)) \<and> elem_at ?q i = Some (element (rng ! i))"
    if "i < length rng" for i
    using load_fold [of "length rng" rng ?ini i] that
    by (simp add: elem_at_def elems_get_def)
  then show ?thesis
    unfolding lp
    by (intro nth_equalityI) (simp_all add: foldl_load_step_fields)
qed

lemma load_pairs_bounded:
  assumes "\<forall>p \<in> set rng. priority p < real MAX_SAFE_INTEGER" "length rng \<le> MAX_SAFE_INTEGER"
  shows "bounded (load_pairs rng kk)"
proof -
  let ?ini = "empty_pq\<lparr>k := kk, heap_size := length rng, elems_size := length rng\<rparr> :: 'a pq"
  have "prio_at (load_pairs rng kk) i = Some (priority (rng ! i))" if "i < length rng" for i
    using load_fold [of "length rng" rng ?ini i] that by (simp add: load_pairs_def Let_def)
  then show ?thesis using assms by (simp add: bounded_def)
qed

definition heap_above :: "'a pq \<Rightarrow> nat \<Rightarrow> bool" where
  "heap_above q j =
     (\<forall>i. 0 < i \<and> i < heap_size q \<and> j \<le> (i - 1) div k q \<longrightarrow> pv q ((i - 1) div k q) \<le> pv q i)"

lemma restoreDown_heap_above:
  assumes "1 \<le> k q" "bounded q" "heap_above q (Suc j)"
  shows "heap_above (restoreDown q j) j \<and> bounded (restoreDown q j)"
proof -
  have o: "\<forall>i. 0 < i \<and> i < heap_size q \<and> j \<le> (i - 1) div k q \<and> (i - 1) div k q \<noteq> j
           \<longrightarrow> pv q ((i - 1) div k q) \<le> pv q i"
    using assms(3) by (auto simp: heap_above_def)
  have g: "0 < j \<and> j \<le> (j - 1) div k q \<longrightarrow>
           (\<forall>i. 0 < i \<and> i < heap_size q \<and> (i - 1) div k q = j
              \<longrightarrow> pv q ((j - 1) div k q) \<le> pv q i)"
    using parent_less [of j "k q"] by auto
  have "bounded (restoreDown q j) \<and>
         (\<forall>i. 0 < i \<and> i < heap_size q \<and> j \<le> (i - 1) div k q
            \<longrightarrow> pv (restoreDown q j) ((i - 1) div k q) \<le> pv (restoreDown q j) i)"
    by (rule sift_down [OF assms(1,2) le_refl o g])
  then show ?thesis by (simp add: heap_above_def)
qed

lemma sweep_heap_above:
  assumes "1 \<le> k q" "bounded q" "heap_above q (nat (i + 1))"
  shows "heap_above (sweep q i) 0 \<and> bounded (sweep q i) \<and>
         mset (nodes (sweep q i)) = mset (nodes q)"
  using assms
proof (induction q i rule: sweep.induct)
  case (1 q i)
  show ?case
  proof (cases "i \<ge> 0")
    case False
    then have "sweep q i = q" by (subst sweep.simps) simp
    moreover have "nat (i + 1) = 0" using False by simp
    ultimately show ?thesis using "1.prems" by simp
  next
    case True
    then have s: "nat (i + 1) = Suc (nat i)" by simp
    let ?q1 = "restoreDown q (nat i)"
    have h1: "heap_above ?q1 (nat i) \<and> bounded ?q1"
      using restoreDown_heap_above [OF "1.prems"(1,2), of "nat i"] "1.prems"(3) s by simp
    have "nat (i - 1 + 1) = nat i" by simp
    then have "heap_above (sweep ?q1 (i - 1)) 0 \<and> bounded (sweep ?q1 (i - 1)) \<and>
         mset (nodes (sweep ?q1 (i - 1))) = mset (nodes ?q1)"
      using "1.IH" [OF True] "1.prems"(1) h1 by simp
    moreover have "sweep q i = sweep ?q1 (i - 1)" using True by (subst sweep.simps) simp
    ultimately show ?thesis by (simp add: mset_nodes_restoreDown)
  qed
qed

lemma foldl_restoreDown_fields:
  "k (foldl restoreDown q ns) = k q \<and> heap_size (foldl restoreDown q ns) = heap_size q \<and>
   elems (foldl restoreDown q ns) = elems q \<and>
   elems_props (foldl restoreDown q ns) = elems_props q \<and>
   elems_size (foldl restoreDown q ns) = elems_size q \<and>
   exited_indexes (foldl restoreDown q ns) = exited_indexes q \<and>
   exited_indexes_count (foldl restoreDown q ns) = exited_indexes_count q"
  by (induction ns arbitrary: q) simp_all

lemma sweep_fields [simp]:
  "k (sweep q i) = k q" "heap_size (sweep q i) = heap_size q"
  "elems (sweep q i) = elems q" "elems_props (sweep q i) = elems_props q"
  "elems_size (sweep q i) = elems_size q"
  "exited_indexes (sweep q i) = exited_indexes q"
  "exited_indexes_count (sweep q i) = exited_indexes_count q"
  by (simp_all add: sweep_foldl foldl_restoreDown_fields)

lemma heap_above_0: "bounded q \<Longrightarrow> heap_above q 0 = heap_ok q"
  by (simp add: heap_above_def heap_ok_pv)

lemma constructor_heap_ok:
  assumes "1 \<le> kk" "\<forall>p \<in> set rng. priority p < real MAX_SAFE_INTEGER"
    "length rng \<le> MAX_SAFE_INTEGER"
  shows "\<exists>q. new_PriorityQueue rng kk = Some q \<and> heap_ok q \<and> bounded q \<and> k q = kk \<and>
             mset (nodes q) = mset (map (\<lambda>p. (Some (priority p), Some (element p))) rng)"
proof -
  let ?l = "load_pairs rng kk"
  have b: "bounded ?l" by (rule load_pairs_bounded [OF assms(2,3)])
  have start: "heap_above ?l (nat (sweep_start ?l + 1))"
    unfolding heap_above_def
  proof (intro allI impI)
    fix i
    assume "0 < i \<and> i < heap_size ?l \<and> nat (sweep_start ?l + 1) \<le> (i - 1) div k ?l"
    then have i: "0 < i" "i < length rng" "nat ((int (length rng) - 1) div int kk + 1) \<le> (i - 1) div kk"
      by (simp_all add: sweep_start_def)
    have "(i - 1) div kk \<le> (length rng - 1) div kk" using i(2) by (intro div_le_mono) simp
    moreover have "(int (length rng) - 1) div int kk = int ((length rng - 1) div kk)"
      using i(1,2) by (simp add: zdiv_int of_nat_diff)
    ultimately have False using i(3) by simp
    then show "pv ?l ((i - 1) div k ?l) \<le> pv ?l i" ..
  qed
  have S: "heap_above (sweep ?l (sweep_start ?l)) 0 \<and> bounded (sweep ?l (sweep_start ?l)) \<and>
         mset (nodes (sweep ?l (sweep_start ?l))) = mset (nodes ?l)"
    by (rule sweep_heap_above) (use assms(1) b start in simp_all)
  then have H: "heap_ok (sweep ?l (sweep_start ?l))" using heap_above_0 by blast
  have N: "new_PriorityQueue rng kk = Some (sweep ?l (sweep_start ?l))"
    using assms(1) by (simp add: new_PriorityQueue_def heapify_def)
  have K: "k (sweep ?l (sweep_start ?l)) = kk" by simp
  show ?thesis using S H N K by (simp add: load_pairs_nodes)
qed

section \<open>Heap sort, for priorities below the sentinel\<close>

text \<open>
  Draining a heap gives its nodes in non-decreasing order of priority. So the constructor
  followed by as many calls of \<open>dequeue\<close> as there are pairs sorts the pairs by priority.
\<close>

lemma drain_sorted:
  assumes "1 \<le> k q" "bounded q" "heap_ok q"
  shows "\<exists>ns. mset ns = mset (nodes q) \<and>
              sorted_wrt (\<lambda>a b. js_le (fst a) (fst b)) ns \<and>
              fst (drain q) = map (\<lambda>n. Inr (snd n)) ns"
  using assms
proof (induction "heap_size q" arbitrary: q)
  case 0
  then have "drain q = ([], q)" by (subst drain.simps) (simp add: count_pq_def)
  moreover have "nodes q = []" using 0 by (simp add: nodes_def)
  ultimately show ?case by simp
next
  case (Suc n)
  then have ne: "heap_size q \<noteq> 0" by simp
  let ?q1 = "snd (dequeue q)"
  let ?n0 = "(prio_at q 0, elem_at q 0)"
  have d: "dequeue q = (Inr (elem_at q 0), ?q1)" using ne by (simp add: dequeue_unfold)
  have hs1: "n = heap_size ?q1" using Suc.hyps(2) ne by (simp add: dequeue_heap_size)
  have k1: "1 \<le> k ?q1" using Suc.prems(1) ne by (simp add: dequeue_unfold)
  have ok1: "heap_ok ?q1" "bounded ?q1"
    using dequeue_heap_ok [OF Suc.prems ne] by simp_all
  obtain ns1 where ns1: "mset ns1 = mset (nodes ?q1)"
      "sorted_wrt (\<lambda>a b. js_le (fst a) (fst b)) ns1"
      "fst (drain ?q1) = map (\<lambda>n. Inr (snd n)) ns1"
    using Suc.hyps(1) [OF hs1 k1 ok1(2) ok1(1)] by blast
  have m1: "mset (nodes ?q1) = mset (nodes q) - {#?n0#}"
    using dequeue_nodes [OF ne] by simp
  have n0_in: "?n0 \<in># mset (nodes q)"
  proof -
    have "nodes q ! 0 = ?n0" using ne by simp
    moreover have "0 < length (nodes q)" using ne by simp
    ultimately show ?thesis by (metis nth_mem set_mset_mset)
  qed
  have le: "js_le (fst ?n0) (fst x)" if "x \<in> set ns1" for x
  proof -
    have "x \<in># mset (nodes q) - {#?n0#}" using that ns1(1) m1 by (metis set_mset_mset)
    then have "x \<in> set (nodes q)" by (metis in_diffD set_mset_mset)
    then obtain i where i: "i < heap_size q" "x = nodes q ! i"
      by (metis in_set_conv_nth length_nodes)
    have "pv q 0 \<le> pv q i" by (rule heap_ok_root_min [OF Suc.prems(2,3) i(1)])
    moreover have "0 < heap_size q" using ne by simp
    ultimately show ?thesis
      using i bounded_prio [OF Suc.prems(2) i(1)] bounded_prio [OF Suc.prems(2), of 0] by simp
  qed
  have f: "fst (dequeue q) = Inr (elem_at q 0)" using ne by (simp add: dequeue_unfold)
  have dr: "fst (drain q) = Inr (elem_at q 0) # fst (drain ?q1)"
    using ne f by (subst drain.simps) (simp add: count_pq_def split_beta)
  let ?ns = "?n0 # ns1"
  have "mset ?ns = mset (nodes q)" using ns1(1) m1 n0_in by simp
  moreover have "sorted_wrt (\<lambda>a b. js_le (fst a) (fst b)) ?ns" using ns1(2) le by simp
  moreover have "fst (drain q) = map (\<lambda>n. Inr (snd n)) ?ns" using dr ns1(3) by simp
  ultimately show ?case by blast
qed

lemma dequeue_n_drain: "dequeue_n (heap_size q) q = drain q"
proof (induction "heap_size q" arbitrary: q)
  case 0
  then show ?case by (subst drain.simps) (simp add: count_pq_def)
next
  case (Suc n)
  then have ne: "heap_size q \<noteq> 0" by simp
  have "n = heap_size (snd (dequeue q))" using Suc.hyps(2) ne by (simp add: dequeue_heap_size)
  then have "dequeue_n n (snd (dequeue q)) = drain (snd (dequeue q))"
    using Suc.hyps(1) by blast
  then show ?case
    using ne Suc.hyps(2) [symmetric]
    by (subst drain.simps) (simp add: count_pq_def split_beta)
qed


lemma mset_image_ex:
  "mset ns = image_mset f M \<Longrightarrow> \<exists>ps. mset ps = M \<and> map f ps = ns"
proof (induction ns arbitrary: M)
  case Nil
  then show ?case by simp
next
  case (Cons x xs)
  then have eq: "image_mset f M = add_mset x (mset xs)" by simp
  from msed_map_invR [OF eq]
  obtain M1 a where a: "M = add_mset a M1" "f a = x" "image_mset f M1 = mset xs" by blast
  from Cons.IH [of M1] a(3)
  obtain ps where ps: "mset ps = M1" "map f ps = xs" by auto
  have "mset (a # ps) = M \<and> map f (a # ps) = x # xs" using a ps by simp
  then show ?case by (intro exI [of _ "a # ps"])
qed

lemma constructor_drain_sorted:
  assumes "1 \<le> kk" "\<forall>p \<in> set rng. priority p < real MAX_SAFE_INTEGER"
    "length rng \<le> MAX_SAFE_INTEGER"
  shows "\<exists>q ps. new_PriorityQueue rng kk = Some q \<and> mset ps = mset rng \<and>
           sorted (map priority ps) \<and>
           fst (dequeue_n (length rng) q) = map (\<lambda>p. Inr (Some (element p))) ps"
proof -
  let ?f = "\<lambda>p :: 'a IElementPriorityPair. (Some (priority p), Some (element p))"
  obtain q where q: "new_PriorityQueue rng kk = Some q" "heap_ok q" "bounded q" "k q = kk"
      "mset (nodes q) = mset (map ?f rng)"
    using constructor_heap_ok [OF assms] by blast
  have hs: "heap_size q = length rng"
  proof -
    have "size (mset (nodes q)) = size (mset (map ?f rng))" using q(5) by simp
    then show ?thesis by simp
  qed
  obtain ns where ns: "mset ns = mset (nodes q)"
      "sorted_wrt (\<lambda>a b. js_le (fst a) (fst b)) ns"
      "fst (drain q) = map (\<lambda>n. Inr (snd n)) ns"
    using drain_sorted [of q] q(2,3,4) assms(1) by blast
  have "mset ns = image_mset ?f (mset rng)" using ns(1) q(5) by simp
  then obtain ps where ps: "mset ps = mset rng" "map ?f ps = ns"
    using mset_image_ex by blast
  have "sorted_wrt (\<lambda>a b. priority a \<le> priority b) ps"
    using ns(2) ps(2) [symmetric] by (simp add: sorted_wrt_map)
  then have "sorted (map priority ps)" by (simp add: sorted_map)
  moreover have "fst (dequeue_n (length rng) q) = map (\<lambda>p. Inr (Some (element p))) ps"
    using ns(3) ps(2) [symmetric] dequeue_n_drain [of q] hs by (simp add: comp_def)
  ultimately show ?thesis using q(1) ps(1) by blast
qed

section \<open>The store of elements\<close>

text \<open>
  \<open>store_ok q\<close>: the links of the heap are distinct indices of the store, the recycled
  indices too, and no index is both linked and recycled.
\<close>

definition store_ok :: "'a pq \<Rightarrow> bool" where
  "store_ok q =
     ((\<forall>i < heap_size q. \<exists>h < elems_size q. link_at q i = Some (real h)) \<and>
      (\<forall>i < heap_size q. \<forall>j < heap_size q. link_at q i = link_at q j \<longrightarrow> i = j) \<and>
      (\<forall>j < exited_indexes_count q.
          \<exists>h < elems_size q. js_get (exited_indexes q) j = Some (real h)) \<and>
      (\<forall>i < exited_indexes_count q. \<forall>j < exited_indexes_count q.
          js_get (exited_indexes q) i = js_get (exited_indexes q) j \<longrightarrow> i = j) \<and>
      (\<forall>i < heap_size q. \<forall>j < exited_indexes_count q.
          link_at q i \<noteq> js_get (exited_indexes q) j))"

lemma store_ok_swap:
  assumes "store_ok q" "i < heap_size q" "j < heap_size q"
  shows "store_ok (swap_nodes q i j)"
  using assms unfolding store_ok_def
  by (simp add: link_at_swap) metis

lemma restoreUp_nodes:
  assumes "1 \<le> k q" "index < heap_size q"
  shows "mset (nodes (restoreUp q index)) = mset (nodes q) \<and>
         (store_ok q \<longrightarrow> store_ok (restoreUp q index))"
  using assms
proof (induction index arbitrary: q rule: less_induct)
  case (less index)
  show ?case
  proof (cases "index = 0")
    case True
    then show ?thesis using less.prems by (subst (1 2) restoreUp_unfold) simp_all
  next
    case False
    then have ipos: "0 < index" by simp
    let ?p = "(index - 1) div k q"
    have p_lt: "?p < index" by (rule parent_less [OF ipos])
    have p_hs: "?p < heap_size q" using p_lt less.prems(2) by simp
    show ?thesis
    proof (cases "js_lt (prio_at q index) (prio_at q ?p)")
      case False
      then show ?thesis using less.prems ipos by (subst (1 2) restoreUp_unfold) simp_all
    next
      case True
      let ?q1 = "swap_nodes q index ?p"
      have r: "restoreUp q index = restoreUp ?q1 ?p"
        using less.prems(1) ipos True by (subst restoreUp_unfold) simp_all
      have "mset (nodes (restoreUp ?q1 ?p)) = mset (nodes ?q1) \<and>
         (store_ok ?q1 \<longrightarrow> store_ok (restoreUp ?q1 ?p))"
        by (rule less.IH [OF p_lt]) (use less.prems(1) p_hs in simp_all)
      moreover have "mset (nodes ?q1) = mset (nodes q)"
        by (rule mset_nodes_swap [OF less.prems(2) p_hs])
      moreover have "store_ok q \<longrightarrow> store_ok ?q1"
        using store_ok_swap [OF _ less.prems(2) p_hs] by blast
      ultimately show ?thesis using r by simp
    qed
  qed
qed

lemma addElem_recycle:
  assumes "0 < exited_indexes_count q"
  shows "snd (addElem q elem) = js_get (exited_indexes q) (exited_indexes_count q - 1)"
    and "fst (addElem q elem) =
           elems_set (q\<lparr>exited_indexes_count := exited_indexes_count q - 1\<rparr>)
             (js_get (exited_indexes q) (exited_indexes_count q - 1)) (Some elem)"
  using assms by (simp_all add: addElem_def Let_def)

lemma addElem_grow:
  assumes "exited_indexes_count q = 0"
  shows "snd (addElem q elem) = Some (real (elems_size q))"
    and "fst (addElem q elem) =
           elems_set (q\<lparr>elems_size := elems_size q + 1\<rparr>) (Some (real (elems_size q))) (Some elem)"
  using assms by (simp_all add: addElem_def Let_def)

text \<open>What \<open>addElem\<close> is known to return on a queue whose store is in order: a fresh index.\<close>

lemma addElem_fresh:
  assumes "store_ok q"
  shows "\<exists>h. snd (addElem q elem) = Some (real h) \<and>
             h < elems_size (fst (addElem q elem)) \<and>
             elems_size q \<le> elems_size (fst (addElem q elem)) \<and>
             (\<forall>i < heap_size q. link_at q i \<noteq> Some (real h)) \<and>
             (\<forall>j < exited_indexes_count (fst (addElem q elem)).
                 js_get (exited_indexes (fst (addElem q elem))) j \<noteq> Some (real h)) \<and>
             exited_indexes (fst (addElem q elem)) = exited_indexes q \<and>
             exited_indexes_count (fst (addElem q elem)) \<le> exited_indexes_count q \<and>
             elems_get (fst (addElem q elem)) (Some (real h)) = Some elem \<and>
             (\<forall>h'. h' \<noteq> h \<longrightarrow> elems_get (fst (addElem q elem)) (Some (real h'))
                                  = elems_get q (Some (real h')))"
proof (cases "0 < exited_indexes_count q")
  case True
  let ?c = "exited_indexes_count q - 1"
  have c: "?c < exited_indexes_count q" using True by simp
  obtain h where h: "h < elems_size q" "js_get (exited_indexes q) ?c = Some (real h)"
    using assms c unfolding store_ok_def by blast
  have live: "\<forall>i < heap_size q. link_at q i \<noteq> Some (real h)"
    using assms c h(2) unfolding store_ok_def by metis
  have ex: "\<forall>j < ?c. js_get (exited_indexes q) j \<noteq> Some (real h)"
  proof (intro allI impI)
    fix j assume j: "j < ?c"
    then have "j < exited_indexes_count q" "j \<noteq> ?c" by simp_all
    then show "js_get (exited_indexes q) j \<noteq> Some (real h)"
      using assms c h(2) unfolding store_ok_def by metis
  qed
  show ?thesis
    using h live ex True
    by (intro exI [of _ h]) (simp add: addElem_recycle elems_set_def elems_get_def)
next
  case False
  then have z: "exited_indexes_count q = 0" by simp
  have live: "\<forall>i < heap_size q. link_at q i \<noteq> Some (real (elems_size q))"
  proof (intro allI impI)
    fix i assume "i < heap_size q"
    then obtain h where "h < elems_size q" "link_at q i = Some (real h)"
      using assms unfolding store_ok_def by blast
    then show "link_at q i \<noteq> Some (real (elems_size q))" by simp
  qed
  show ?thesis
    using live z
    by (intro exI [of _ "elems_size q"]) (simp add: addElem_grow elems_set_def elems_get_def)
qed

lemma elems_get_appended [simp]:
  "elems_get (appended q elem prio) key = elems_get (fst (addElem q elem)) key"
  by (simp add: appended_def Let_def)

lemma appended_store_fields [simp]:
  "elems_size (appended q elem prio) = elems_size (fst (addElem q elem))"
  "exited_indexes (appended q elem prio) = exited_indexes (fst (addElem q elem))"
  "exited_indexes_count (appended q elem prio) = exited_indexes_count (fst (addElem q elem))"
  by (simp_all add: appended_def Let_def)

lemma appended_nodes:
  assumes "store_ok q"
  shows "nodes (appended q elem prio) = nodes q @ [(Some prio, Some elem)] \<and>
         store_ok (appended q elem prio)"
proof -
  let ?a = "appended q elem prio" and ?q1 = "fst (addElem q elem)"
  obtain h where h: "snd (addElem q elem) = Some (real h)"
      "h < elems_size ?q1" "elems_size q \<le> elems_size ?q1"
      "\<forall>i < heap_size q. link_at q i \<noteq> Some (real h)"
      "\<forall>j < exited_indexes_count ?q1. js_get (exited_indexes ?q1) j \<noteq> Some (real h)"
      "exited_indexes ?q1 = exited_indexes q"
      "exited_indexes_count ?q1 \<le> exited_indexes_count q"
      "elems_get ?q1 (Some (real h)) = Some elem"
      "\<forall>h'. h' \<noteq> h \<longrightarrow> elems_get ?q1 (Some (real h')) = elems_get q (Some (real h'))"
    using addElem_fresh [OF assms, of elem] by blast
  have old: "elem_at ?a i = elem_at q i" if lt: "i < heap_size q" for i
  proof -
    obtain hi where hi: "link_at q i = Some (real hi)"
      using assms lt unfolding store_ok_def by blast
    then have "hi \<noteq> h" using h(4) lt by auto
    then show ?thesis using hi lt h(9) by (simp add: elem_at_def link_at_appended)
  qed
  have new: "elem_at ?a (heap_size q) = Some elem"
    using h(1,8) by (simp add: elem_at_def link_at_appended)
  have n: "nodes ?a = nodes q @ [(Some prio, Some elem)]"
    using old new
    by (intro nth_equalityI) (auto simp: nth_append prio_at_appended less_Suc_eq)
  have s1: "\<forall>i < heap_size ?a. \<exists>h' < elems_size ?a. link_at ?a i = Some (real h')"
  proof (intro allI impI)
    fix i assume i: "i < heap_size ?a"
    show "\<exists>h' < elems_size ?a. link_at ?a i = Some (real h')"
    proof (cases "i = heap_size q")
      case True
      then show ?thesis using h(1,2) by (auto simp: link_at_appended)
    next
      case False
      then have "i < heap_size q" using i by simp
      then obtain hi where "hi < elems_size q" "link_at q i = Some (real hi)"
        using assms unfolding store_ok_def by blast
      then show ?thesis using False h(3) by (auto simp: link_at_appended intro!: exI [of _ hi])
    qed
  qed
  have s2: "\<forall>i < heap_size ?a. \<forall>j < heap_size ?a. link_at ?a i = link_at ?a j \<longrightarrow> i = j"
  proof (intro allI impI)
    fix i j assume ij: "i < heap_size ?a" "j < heap_size ?a" "link_at ?a i = link_at ?a j"
    have d: "\<forall>i < heap_size q. \<forall>j < heap_size q. link_at q i = link_at q j \<longrightarrow> i = j"
      using assms unfolding store_ok_def by blast
    have la: "link_at ?a m = (if m = heap_size q then Some (real h) else link_at q m)"
      if "m < heap_size ?a" for m
      using h(1) by (simp add: link_at_appended)
    have lt: "m < heap_size q" if "m < heap_size ?a" "m \<noteq> heap_size q" for m
      using that by simp
    consider "i = heap_size q" "j = heap_size q" | "i = heap_size q" "j < heap_size q"
      | "i < heap_size q" "j = heap_size q" | "i < heap_size q" "j < heap_size q"
      using lt ij(1,2) by blast
    then show "i = j"
    proof cases
      case 1
      then show ?thesis by simp
    next
      case 2
      then show ?thesis using ij(3) la [OF ij(1)] la [OF ij(2)] h(4) by auto
    next
      case 3
      then show ?thesis using ij(3) la [OF ij(1)] la [OF ij(2)] h(4) by auto
    next
      case 4
      then show ?thesis using ij(3) la [OF ij(1)] la [OF ij(2)] d by auto
    qed
  qed
  have s3: "\<forall>j < exited_indexes_count ?a.
          \<exists>h' < elems_size ?a. js_get (exited_indexes ?a) j = Some (real h')"
  proof (intro allI impI)
    fix j assume "j < exited_indexes_count ?a"
    then have "j < exited_indexes_count q" using h(7) by simp
    then obtain hj where "hj < elems_size q" "js_get (exited_indexes q) j = Some (real hj)"
      using assms unfolding store_ok_def by blast
    then show "\<exists>h' < elems_size ?a. js_get (exited_indexes ?a) j = Some (real h')"
      using h(3,6) by (auto intro!: exI [of _ hj])
  qed
  have s4: "\<forall>i < exited_indexes_count ?a. \<forall>j < exited_indexes_count ?a.
          js_get (exited_indexes ?a) i = js_get (exited_indexes ?a) j \<longrightarrow> i = j"
    using assms h(6,7) unfolding store_ok_def by simp
  have s5: "\<forall>i < heap_size ?a. \<forall>j < exited_indexes_count ?a.
          link_at ?a i \<noteq> js_get (exited_indexes ?a) j"
  proof (intro allI impI)
    fix i j assume ij: "i < heap_size ?a" "j < exited_indexes_count ?a"
    show "link_at ?a i \<noteq> js_get (exited_indexes ?a) j"
    proof (cases "i = heap_size q")
      case True
      then show ?thesis using ij(2) h(1,5) by (auto simp: link_at_appended)
    next
      case False
      then have "i < heap_size q" "j < exited_indexes_count q" using ij h(7) by simp_all
      then show ?thesis using assms False h(6) unfolding store_ok_def
        by (simp add: link_at_appended)
    qed
  qed
  show ?thesis using n s1 s2 s3 s4 s5 unfolding store_ok_def [of ?a] by blast
qed

lemma enqueue_nodes:
  assumes "1 \<le> k q" "store_ok q"
  shows "mset (nodes (enqueue q elem prio)) = add_mset (Some prio, Some elem) (mset (nodes q)) \<and>
         store_ok (enqueue q elem prio)"
proof -
  let ?a = "appended q elem prio"
  have a: "nodes ?a = nodes q @ [(Some prio, Some elem)]" "store_ok ?a"
    using appended_nodes [OF assms(2)] by simp_all
  have "mset (nodes (restoreUp ?a (heap_size q))) = mset (nodes ?a) \<and>
         (store_ok ?a \<longrightarrow> store_ok (restoreUp ?a (heap_size q)))"
    by (rule restoreUp_nodes) (use assms(1) in simp_all)
  then show ?thesis using a by (simp add: enqueue_unfold)
qed

text \<open>Enqueueing the pairs of a list one after the other.\<close>

definition enqueue_all :: "'a pq \<Rightarrow> 'a IElementPriorityPair list \<Rightarrow> 'a pq" where
  "enqueue_all q rng = foldl (\<lambda>q1 pair. enqueue q1 (element pair) (priority pair)) q rng"

lemma enqueue_fields [simp]:
  "k (enqueue q elem prio) = k q" "heap_size (enqueue q elem prio) = heap_size q + 1"
  by (simp_all add: enqueue_unfold)

lemma enqueue_all_good:
  assumes "1 \<le> k q" "store_ok q" "bounded q" "heap_ok q"
    and "\<forall>p \<in> set rng. priority p < real MAX_SAFE_INTEGER"
    and "heap_size q + length rng \<le> MAX_SAFE_INTEGER"
  shows "k (enqueue_all q rng) = k q \<and> store_ok (enqueue_all q rng) \<and>
         bounded (enqueue_all q rng) \<and> heap_ok (enqueue_all q rng) \<and>
         heap_size (enqueue_all q rng) = heap_size q + length rng \<and>
         mset (nodes (enqueue_all q rng))
           = mset (nodes q) + mset (map (\<lambda>p. (Some (priority p), Some (element p))) rng)"
  using assms
proof (induction rng arbitrary: q)
  case Nil
  then show ?case by (simp add: enqueue_all_def)
next
  case (Cons p rng)
  let ?q1 = "enqueue q (element p) (priority p)"
  have n1: "mset (nodes ?q1) = add_mset (Some (priority p), Some (element p)) (mset (nodes q))"
      "store_ok ?q1"
    using enqueue_nodes [OF Cons.prems(1,2)] by simp_all
  have h1: "heap_ok ?q1" "bounded ?q1"
    using enqueue_heap_ok [OF Cons.prems(1,3,4), of "priority p" "element p"] Cons.prems(5,6)
    by simp_all
  have "k (enqueue_all ?q1 rng) = k ?q1 \<and> store_ok (enqueue_all ?q1 rng) \<and>
         bounded (enqueue_all ?q1 rng) \<and> heap_ok (enqueue_all ?q1 rng) \<and>
         heap_size (enqueue_all ?q1 rng) = heap_size ?q1 + length rng \<and>
         mset (nodes (enqueue_all ?q1 rng))
           = mset (nodes ?q1) + mset (map (\<lambda>p. (Some (priority p), Some (element p))) rng)"
    by (rule Cons.IH) (use Cons.prems n1 h1 in simp_all)
  moreover have "enqueue_all q (p # rng) = enqueue_all ?q1 rng" by (simp add: enqueue_all_def)
  ultimately show ?case using n1(1) by simp
qed

section \<open>dequeue, enqueueDequeue and dequeueEnqueue on a store in order\<close>

lemma store_ok_restoreDown: "store_ok q \<Longrightarrow> store_ok (restoreDown q index)"
proof (induction q index rule: restoreDown.induct)
  case (1 q index)
  let ?m = "find_min_child q index"
  show ?case
  proof (cases "fst ?m = real MAX_SAFE_INTEGER")
    case True
    then show ?thesis using "1.prems" by (subst restoreDown_unfold) simp
  next
    case False
    then have b: "index < snd ?m" "snd ?m < heap_size q"
      using find_min_child_bounds [of q index] by simp_all
    then have i: "index < heap_size q" by simp
    define q1 where "q1 = (if js_gt (prio_at q index) (prio_at q (snd ?m))
                           then swap_nodes q index (snd ?m) else q)"
    have q1_form: "q1 = (if js_gt (js_get (heap q) (index * 2)) (js_get (heap q) (snd ?m * 2))
                          then swap_nodes q index (snd ?m) else q)"
      by (simp add: q1_def prio_at_def)
    have "store_ok q1"
      using store_ok_swap [OF "1.prems" i b(2)] "1.prems" by (simp add: q1_def)
    then have "store_ok (restoreDown q1 (snd ?m))"
      using "1.IH" [OF refl False, folded q1_form] by blast
    moreover have "restoreDown q index = restoreDown q1 (snd ?m)"
      using False by (subst restoreDown_unfold) (simp add: q1_def)
    ultimately show ?thesis by simp
  qed
qed

lemma last_to_root_exited:
  "exited_indexes_count (last_to_root q) = exited_indexes_count q + 1"
  "js_get (exited_indexes (last_to_root q)) j =
     (if j = exited_indexes_count q then link_at q 0 else js_get (exited_indexes q) j)"
  by (auto simp: last_to_root_def Let_def link_at_def)

lemma store_ok_last_to_root:
  assumes "store_ok q" "heap_size q \<noteq> 0"
  shows "store_ok (last_to_root q)"
proof -
  let ?p = "last_to_root q" and ?n = "heap_size q - 1"
  have n: "?n < heap_size q" using assms(2) by simp
  have z: "0 < heap_size q" using assms(2) by simp
  have valid: "\<exists>h < elems_size q. link_at q i = Some (real h)" if "i < heap_size q" for i
    using assms(1) that unfolding store_ok_def by blast
  have dist: "i = j" if "i < heap_size q" "j < heap_size q" "link_at q i = link_at q j" for i j
    using assms(1) that unfolding store_ok_def by blast
  have evalid: "\<exists>h < elems_size q. js_get (exited_indexes q) j = Some (real h)"
    if "j < exited_indexes_count q" for j
    using assms(1) that unfolding store_ok_def by blast
  have edist: "i = j" if "i < exited_indexes_count q" "j < exited_indexes_count q"
      "js_get (exited_indexes q) i = js_get (exited_indexes q) j" for i j
    using assms(1) that unfolding store_ok_def by blast
  have disj: "link_at q i \<noteq> js_get (exited_indexes q) j"
    if "i < heap_size q" "j < exited_indexes_count q" for i j
    using assms(1) that unfolding store_ok_def by blast
  have src: "\<exists>i'. i' < heap_size q \<and> i' \<noteq> 0 \<and> link_at ?p i = link_at q i'"
    if "i < ?n" for i
  proof (cases "i = 0")
    case True
    then show ?thesis using that n by (intro exI [of _ ?n]) (simp add: link_at_last_to_root)
  next
    case False
    then show ?thesis using that by (intro exI [of _ i]) (simp add: link_at_last_to_root)
  qed
  have s1: "\<forall>i < heap_size ?p. \<exists>h < elems_size ?p. link_at ?p i = Some (real h)"
  proof (intro allI impI)
    fix i assume "i < heap_size ?p"
    then have "i < ?n" by simp
    then obtain i' where i': "i' < heap_size q" "link_at ?p i = link_at q i'"
      using src by blast
    then show "\<exists>h < elems_size ?p. link_at ?p i = Some (real h)"
      using valid [OF i'(1)] by simp
  qed
  have s2: "\<forall>i < heap_size ?p. \<forall>j < heap_size ?p. link_at ?p i = link_at ?p j \<longrightarrow> i = j"
  proof (intro allI impI)
    fix i j assume ij: "i < heap_size ?p" "j < heap_size ?p" "link_at ?p i = link_at ?p j"
    then have lt: "i < ?n" "j < ?n" by simp_all
    then have lt': "i < heap_size q" "j < heap_size q" by simp_all
    consider "i = 0" "j = 0" | "i = 0" "j \<noteq> 0" | "i \<noteq> 0" "j = 0" | "i \<noteq> 0" "j \<noteq> 0"
      by blast
    then show "i = j"
    proof cases
      case 1
      then show ?thesis by simp
    next
      case 2
      then have "link_at q ?n = link_at q j" using ij(3) by (simp add: link_at_last_to_root)
      then have "?n = j" using dist [OF n lt'(2)] by simp
      then show ?thesis using lt(2) by simp
    next
      case 3
      then have "link_at q i = link_at q ?n" using ij(3) by (simp add: link_at_last_to_root)
      then have "i = ?n" using dist [OF lt'(1) n] by simp
      then show ?thesis using lt(1) by simp
    next
      case 4
      then have "link_at q i = link_at q j" using ij(3) by (simp add: link_at_last_to_root)
      then show ?thesis using dist [OF lt'] by simp
    qed
  qed
  have s3: "\<forall>j < exited_indexes_count ?p.
          \<exists>h < elems_size ?p. js_get (exited_indexes ?p) j = Some (real h)"
  proof (intro allI impI)
    fix j assume j: "j < exited_indexes_count ?p"
    show "\<exists>h < elems_size ?p. js_get (exited_indexes ?p) j = Some (real h)"
    proof (cases "j = exited_indexes_count q")
      case True
      then show ?thesis using valid [OF z] by (simp add: last_to_root_exited)
    next
      case False
      then have "j < exited_indexes_count q" using j by (simp add: last_to_root_exited)
      then show ?thesis using evalid False by (simp add: last_to_root_exited)
    qed
  qed
  have s4: "\<forall>i < exited_indexes_count ?p. \<forall>j < exited_indexes_count ?p.
          js_get (exited_indexes ?p) i = js_get (exited_indexes ?p) j \<longrightarrow> i = j"
  proof (intro allI impI)
    fix i j assume ij: "i < exited_indexes_count ?p" "j < exited_indexes_count ?p"
        "js_get (exited_indexes ?p) i = js_get (exited_indexes ?p) j"
    let ?c = "exited_indexes_count q"
    consider "i = ?c" "j = ?c" | "i = ?c" "j < ?c" | "i < ?c" "j = ?c" | "i < ?c" "j < ?c"
      using ij(1,2) by (auto simp: last_to_root_exited less_Suc_eq)
    then show "i = j"
    proof cases
      case 1
      then show ?thesis by simp
    next
      case 2
      then have "link_at q 0 = js_get (exited_indexes q) j"
        using ij(3) by (simp add: last_to_root_exited)
      then show ?thesis using disj [OF z 2(2)] by simp
    next
      case 3
      then have "js_get (exited_indexes q) i = link_at q 0"
        using ij(3) by (simp add: last_to_root_exited)
      then show ?thesis using disj [OF z 3(1)] by simp
    next
      case 4
      then have "js_get (exited_indexes q) i = js_get (exited_indexes q) j"
        using ij(3) by (simp add: last_to_root_exited)
      then show ?thesis using edist [OF 4] by simp
    qed
  qed
  have s5: "\<forall>i < heap_size ?p. \<forall>j < exited_indexes_count ?p.
          link_at ?p i \<noteq> js_get (exited_indexes ?p) j"
  proof (intro allI impI)
    fix i j assume ij: "i < heap_size ?p" "j < exited_indexes_count ?p"
    then have "i < ?n" by simp
    then obtain i' where i': "i' < heap_size q" "i' \<noteq> 0" "link_at ?p i = link_at q i'"
      using src by blast
    show "link_at ?p i \<noteq> js_get (exited_indexes ?p) j"
    proof (cases "j = exited_indexes_count q")
      case True
      have "link_at q i' \<noteq> link_at q 0" using dist [OF i'(1) z] i'(2) by blast
      then show ?thesis using True i'(3) by (simp add: last_to_root_exited)
    next
      case False
      then have "j < exited_indexes_count q" using ij(2) by (simp add: last_to_root_exited)
      then show ?thesis using disj [OF i'(1)] i'(3) False by (simp add: last_to_root_exited)
    qed
  qed
  show ?thesis using s1 s2 s3 s4 s5 unfolding store_ok_def [of ?p] by blast
qed

lemma store_ok_dequeue:
  assumes "store_ok q" "heap_size q \<noteq> 0"
  shows "store_ok (snd (dequeue q))"
  using assms by (simp add: dequeue_unfold store_ok_restoreDown store_ok_last_to_root)

text \<open>
  The queue \<open>enqueueDequeue\<close> and \<open>dequeueEnqueue\<close> hand to \<open>restoreDown\<close>: the root's
  priority and the element its link names are overwritten.
\<close>

definition root_replaced :: "'a pq \<Rightarrow> 'a \<Rightarrow> number \<Rightarrow> 'a pq" where
  "root_replaced q elem prio =
     (let q1 = q\<lparr>heap := js_set (heap q) 0 (Some prio)\<rparr>
      in elems_set q1 (js_get (heap q1) 1) (Some elem))"

lemma enqueueDequeue_unfold:
  "enqueueDequeue q elem prio =
     (if js_le (Some prio) (prio_at q 0) then (Some elem, q)
      else (elem_at q 0, restoreDown (root_replaced q elem prio) 0))"
  by (simp add: enqueueDequeue_def root_replaced_def Let_def prio_at_def elem_at_def link_at_def)

lemma dequeueEnqueue_unfold:
  "heap_size q \<noteq> 0 \<Longrightarrow>
   dequeueEnqueue q elem prio = (Inr (elem_at q 0), restoreDown (root_replaced q elem prio) 0)"
  by (simp add: dequeueEnqueue_def root_replaced_def Let_def elem_at_def link_at_def)

lemma root_replaced_fields [simp]:
  "heap_size (root_replaced q elem prio) = heap_size q"
  "k (root_replaced q elem prio) = k q"
  "elems_size (root_replaced q elem prio) = elems_size q"
  "exited_indexes (root_replaced q elem prio) = exited_indexes q"
  "exited_indexes_count (root_replaced q elem prio) = exited_indexes_count q"
  by (simp_all add: root_replaced_def Let_def)

lemma prio_at_root_replaced:
  "prio_at (root_replaced q elem prio) i = (if i = 0 then Some prio else prio_at q i)"
  by (auto simp: root_replaced_def Let_def prio_at_def)

lemma link_at_root_replaced [simp]: "link_at (root_replaced q elem prio) i = link_at q i"
  by (simp add: root_replaced_def Let_def link_at_def)

lemma pv_root_replaced:
  "pv (root_replaced q elem prio) i = (if i = 0 then prio else pv q i)"
  by (simp add: pv_def prio_at_root_replaced)

lemma store_ok_root_replaced: "store_ok (root_replaced q elem prio) = store_ok q"
  by (simp add: store_ok_def)

lemma elems_get_root_replaced:
  "js_get (heap q) 1 = Some (real h0) \<Longrightarrow>
   elems_get (root_replaced q elem prio) (Some (real h))
     = (if h = h0 then Some elem else elems_get q (Some (real h)))"
  by (simp add: root_replaced_def Let_def elems_set_def elems_get_def)

lemma elem_at_root_replaced:
  assumes "store_ok q" "i < heap_size q" "0 < heap_size q"
  shows "elem_at (root_replaced q elem prio) i = (if i = 0 then Some elem else elem_at q i)"
proof -
  obtain h0 where h0: "link_at q 0 = Some (real h0)"
    using assms(1,3) unfolding store_ok_def by blast
  obtain h where h: "link_at q i = Some (real h)"
    using assms(1,2) unfolding store_ok_def by blast
  have d: "\<forall>i < heap_size q. \<forall>j < heap_size q. link_at q i = link_at q j \<longrightarrow> i = j"
    using assms(1) unfolding store_ok_def by blast
  have "(h = h0) = (i = 0)"
  proof
    assume "h = h0"
    then have "link_at q i = link_at q 0" using h h0 by simp
    then show "i = 0" using d assms(2,3) by blast
  next
    assume "i = 0"
    then show "h = h0" using h h0 by simp
  qed
  moreover have g: "js_get (heap q) 1 = Some (real h0)" using h0 by (simp add: link_at_def)
  moreover have "elem_at (root_replaced q elem prio) i
                 = elems_get (root_replaced q elem prio) (Some (real h))"
    using h by (simp add: elem_at_def)
  moreover have "elem_at q i = elems_get q (Some (real h))" using h by (simp add: elem_at_def)
  ultimately show ?thesis by (simp add: elems_get_root_replaced [OF g])
qed

lemma nodes_root_replaced:
  assumes "store_ok q" "heap_size q \<noteq> 0"
  shows "mset (nodes (root_replaced q elem prio))
         = add_mset (Some prio, Some elem) (mset (nodes q) - {#(prio_at q 0, elem_at q 0)#})"
proof -
  let ?r = "root_replaced q elem prio"
  have z: "0 < heap_size q" using assms(2) by simp
  have "nodes ?r = (nodes q)[0 := (Some prio, Some elem)]"
    using elem_at_root_replaced [OF assms(1) _ z]
    by (intro nth_equalityI) (auto simp: nth_list_update prio_at_root_replaced)
  moreover have "nodes q ! 0 = (prio_at q 0, elem_at q 0)" using z by simp
  ultimately show ?thesis using z by (simp add: mset_update)
qed

lemma root_replaced_heap_ok:
  assumes "1 \<le> k q" "bounded q" "heap_ok q" "prio < real MAX_SAFE_INTEGER"
  shows "heap_ok (restoreDown (root_replaced q elem prio) 0) \<and>
         bounded (restoreDown (root_replaced q elem prio) 0)"
proof -
  let ?r = "root_replaced q elem prio"
  have br: "bounded ?r"
    using assms(2,4) by (auto simp: bounded_def prio_at_root_replaced)
  have "pv ?r ((i - 1) div k ?r) \<le> pv ?r i"
    if "0 < i" "i < heap_size ?r" "(i - 1) div k ?r \<noteq> 0" for i
  proof -
    have "pv q ((i - 1) div k q) \<le> pv q i"
      using assms(3) that(1,2) by (simp add: heap_ok_pv [OF assms(2)])
    then show ?thesis using that by (simp add: pv_root_replaced)
  qed
  then show ?thesis by (intro restoreDown_root) (use assms(1) br in auto)
qed

text \<open>
  With priorities below the sentinel, \<open>enqueueDequeue\<close> on a non-empty queue follows its
  documentation: a priority not above the root's gives the element back and leaves the
  queue alone; otherwise the root's element is returned and the new pair takes its place.
\<close>

lemma enqueueDequeue_good:
  assumes "1 \<le> k q" "bounded q" "heap_ok q" "store_ok q" "heap_size q \<noteq> 0"
    and "prio < real MAX_SAFE_INTEGER"
  shows "(prio \<le> pv q 0 \<longrightarrow> enqueueDequeue q elem prio = (Some elem, q)) \<and>
         (pv q 0 < prio \<longrightarrow>
            fst (enqueueDequeue q elem prio) = elem_at q 0 \<and>
            mset (nodes (snd (enqueueDequeue q elem prio)))
              = add_mset (Some prio, Some elem) (mset (nodes q) - {#(prio_at q 0, elem_at q 0)#}) \<and>
            heap_ok (snd (enqueueDequeue q elem prio)) \<and>
            bounded (snd (enqueueDequeue q elem prio)) \<and>
            store_ok (snd (enqueueDequeue q elem prio)) \<and>
            k (snd (enqueueDequeue q elem prio)) = k q \<and>
            heap_size (snd (enqueueDequeue q elem prio)) = heap_size q)"
proof -
  have z: "0 < heap_size q" using assms(5) by simp
  have p0: "prio_at q 0 = Some (pv q 0)" using bounded_prio [OF assms(2) z] by simp
  have "store_ok (restoreDown (root_replaced q elem prio) 0)"
    using assms(4) by (simp add: store_ok_restoreDown store_ok_root_replaced)
  then show ?thesis
    using root_replaced_heap_ok [OF assms(1,2,3,6), of elem]
      nodes_root_replaced [OF assms(4,5), of elem prio]
    by (simp add: enqueueDequeue_unfold p0 mset_nodes_restoreDown)
qed

lemma dequeueEnqueue_good:
  assumes "1 \<le> k q" "bounded q" "heap_ok q" "store_ok q" "heap_size q \<noteq> 0"
    and "prio < real MAX_SAFE_INTEGER"
  shows "fst (dequeueEnqueue q elem prio) = Inr (elem_at q 0) \<and>
         mset (nodes (snd (dequeueEnqueue q elem prio)))
           = add_mset (Some prio, Some elem) (mset (nodes q) - {#(prio_at q 0, elem_at q 0)#}) \<and>
         heap_ok (snd (dequeueEnqueue q elem prio)) \<and>
         bounded (snd (dequeueEnqueue q elem prio)) \<and>
         store_ok (snd (dequeueEnqueue q elem prio)) \<and>
         k (snd (dequeueEnqueue q elem prio)) = k q \<and>
         heap_size (snd (dequeueEnqueue q elem prio)) = heap_size q"
proof -
  have "store_ok (restoreDown (root_replaced q elem prio) 0)"
    using assms(4) by (simp add: store_ok_restoreDown store_ok_root_replaced)
  then show ?thesis
    using root_replaced_heap_ok [OF assms(1,2,3,6), of elem]
      nodes_root_replaced [OF assms(4,5), of elem prio] assms(5)
    by (simp add: dequeueEnqueue_unfold mset_nodes_restoreDown)
qed

text \<open>Heap sort by repeated \<open>enqueue\<close>, for priorities below the sentinel.\<close>

lemma empty_pq_good:
  "store_ok (empty_pq\<lparr>k := kk\<rparr>)" "bounded (empty_pq\<lparr>k := kk\<rparr>)" "heap_ok (empty_pq\<lparr>k := kk\<rparr>)"
  "nodes (empty_pq\<lparr>k := kk\<rparr>) = []" "heap_size (empty_pq\<lparr>k := kk\<rparr>) = 0"
  by (simp_all add: store_ok_def bounded_def heap_ok_def nodes_def empty_pq_def)

lemma enqueue_drain_sorted:
  assumes "1 \<le> kk" "\<forall>p \<in> set rng. priority p < real MAX_SAFE_INTEGER"
    "length rng \<le> MAX_SAFE_INTEGER"
  shows "\<exists>ps. mset ps = mset rng \<and> sorted (map priority ps) \<and>
           fst (dequeue_n (length rng) (enqueue_all (empty_pq\<lparr>k := kk\<rparr>) rng))
             = map (\<lambda>p. Inr (Some (element p))) ps"
proof -
  let ?f = "\<lambda>p :: 'a IElementPriorityPair. (Some (priority p), Some (element p))"
  let ?e = "empty_pq\<lparr>k := kk\<rparr> :: 'a pq"
  let ?q = "enqueue_all ?e rng"
  have g: "k ?q = k ?e \<and> store_ok ?q \<and> bounded ?q \<and> heap_ok ?q \<and>
         heap_size ?q = heap_size ?e + length rng \<and>
         mset (nodes ?q) = mset (nodes ?e) + mset (map ?f rng)"
    by (rule enqueue_all_good) (use assms in \<open>simp_all add: empty_pq_good\<close>)
  then have q: "k ?q = kk" "bounded ?q" "heap_ok ?q" "heap_size ?q = length rng"
      "mset (nodes ?q) = mset (map ?f rng)"
    by (simp_all add: empty_pq_good)
  have k1: "1 \<le> k ?q" using q(1) assms(1) by simp
  obtain ns where ns: "mset ns = mset (nodes ?q)"
      "sorted_wrt (\<lambda>a b. js_le (fst a) (fst b)) ns"
      "fst (drain ?q) = map (\<lambda>n. Inr (snd n)) ns"
    using drain_sorted [OF k1 q(2,3)] by blast
  have "mset ns = image_mset ?f (mset rng)" using ns(1) q(5) by simp
  then obtain ps where ps: "mset ps = mset rng" "map ?f ps = ns"
    using mset_image_ex by blast
  have "sorted_wrt (\<lambda>a b. priority a \<le> priority b) ps"
    using ns(2) ps(2) [symmetric] by (simp add: sorted_wrt_map)
  then have "sorted (map priority ps)" by (simp add: sorted_map)
  moreover have "fst (dequeue_n (length rng) ?q) = map (\<lambda>p. Inr (Some (element p))) ps"
    using ns(3) ps(2) [symmetric] dequeue_n_drain [of ?q] q(4) by (simp add: comp_def)
  ultimately show ?thesis using ps(1) by blast
qed

section \<open>The count\<close>

lemma count_enqueue: "count_pq (enqueue q elem prio) = count_pq q + 1"
  by (simp add: count_pq_def)

lemma count_dequeue: "count_pq q \<noteq> 0 \<Longrightarrow> count_pq (snd (dequeue q)) = count_pq q - 1"
  by (simp add: count_pq_def dequeue_heap_size)

lemma count_enqueue_all: "count_pq (enqueue_all q rng) = count_pq q + length rng"
proof (induction rng arbitrary: q)
  case Nil
  then show ?case by (simp add: enqueue_all_def)
next
  case (Cons p rng)
  have "enqueue_all q (p # rng) = enqueue_all (enqueue q (element p) (priority p)) rng"
    by (simp add: enqueue_all_def)
  then show ?case using Cons.IH [of "enqueue q (element p) (priority p)"]
    by (simp add: count_enqueue)
qed

lemma bulk_step_heap_size [simp]: "heap_size (bulk_step rng q i) = heap_size q"
  by (simp add: bulk_step_def Let_def split_beta)

lemma foldl_bulk_step_heap_size [simp]:
  "heap_size (foldl (bulk_step rng) q ns) = heap_size q"
  by (induction ns arbitrary: q) simp_all

lemma heapify_heap_size: "heapify q = Some q' \<Longrightarrow> heap_size q' = heap_size q"
  by (auto simp: heapify_def sweep_fields split: if_splits)

text \<open>
  The two branches of \<open>enqueueRange\<close>: the one that calls \<open>enqueue\<close> adds the length of
  the range to the count, the bulk one returns with the count it started from.
\<close>

lemma enqueueRange_small_count:
  assumes "range_is_small (length rng) (heap_size q)"
  shows "enqueueRange q rng = Some (enqueue_all q rng) \<and>
         count_pq (enqueue_all q rng) = count_pq q + length rng"
  using assms by (simp add: enqueueRange_def enqueue_all_def [symmetric] count_enqueue_all)

lemma enqueueRange_bulk_count:
  assumes "\<not> range_is_small (length rng) (heap_size q)" "enqueueRange q rng = Some q'"
  shows "count_pq q' = count_pq q"
proof -
  have "heapify (foldl (bulk_step rng) q [0 ..< length rng]) = Some q'"
    using assms by (simp add: enqueueRange_def)
  from heapify_heap_size [OF this] show ?thesis by (simp add: count_pq_def)
qed

lemma enqueueRange_empty_is_bulk: "\<not> range_is_small n 0"
  by (simp add: range_is_small_def)

section \<open>The operations on a queue below the sentinel\<close>

text \<open>
  \<open>good q\<close> collects what the operations keep when every priority is below the sentinel:
  \<open>k\<close> is at least 1, the priorities are bounded, the heap property holds and the store
  is in order. Two queues with the same nodes are heaps together.
\<close>

definition good :: "'a pq \<Rightarrow> bool" where
  "good q = (1 \<le> k q \<and> bounded q \<and> heap_ok q \<and> store_ok q)"

lemma same_nodes_nodes: "same_nodes q q' \<Longrightarrow> nodes q' = nodes q"
  by (intro nth_equalityI) (simp_all add: same_nodes_def)

lemma same_nodes_bounded: "same_nodes q q' \<Longrightarrow> bounded q' = bounded q"
  by (simp add: same_nodes_def bounded_def)

lemma same_nodes_heap_ok:
  assumes "same_nodes q q'"
  shows "heap_ok q' = heap_ok q"
proof -
  have "prio_at q' ((i - 1) div k q') = prio_at q ((i - 1) div k q) \<and> prio_at q' i = prio_at q i"
    if "0 < i" "i < heap_size q" for i
  proof -
    have "(i - 1) div k q < heap_size q" using parent_less [OF that(1), of "k q"] that(2) by simp
    then show ?thesis using assms that(2) by (simp add: same_nodes_def)
  qed
  moreover have "heap_size q' = heap_size q" using assms by (simp add: same_nodes_def)
  ultimately show ?thesis unfolding heap_ok_iff by auto
qed

lemma same_nodes_trans: "same_nodes q q' \<Longrightarrow> same_nodes q' q'' \<Longrightarrow> same_nodes q q''"
  by (simp add: same_nodes_def)

lemma same_nodes_refl: "same_nodes q q"
  by (simp add: same_nodes_def)

text \<open>\<open>shrink\<close> and \<open>clear\<close>.\<close>

lemma link_at_shrink: "i < heap_size q \<Longrightarrow> link_at (shrink q) i = Some (real i)"
  using shrink_fold [of q "heap_size q" i] by (simp add: shrink_def Let_def link_at_def)

lemma shrink_fields [simp]:
  "k (shrink q) = k q" "heap_size (shrink q) = heap_size q"
  "elems_size (shrink q) = heap_size q" "exited_indexes_count (shrink q) = 0"
  by (simp_all add: shrink_def Let_def)

lemma store_ok_shrink: "store_ok (shrink q)"
  by (simp add: store_ok_def link_at_shrink)

lemma shrink_good:
  assumes "good q"
  shows "good (shrink q) \<and> nodes (shrink q) = nodes q"
  using assms same_nodes_shrink [of q]
  by (simp add: good_def same_nodes_nodes same_nodes_bounded same_nodes_heap_ok store_ok_shrink)

lemma clear_good: "1 \<le> k q \<Longrightarrow> good (clear q) \<and> nodes (clear q) = []"
  by (simp add: good_def clear_def bounded_def heap_ok_def store_ok_def nodes_def)

text \<open>\<open>peek\<close> on a heap returns the element of a node of least priority.\<close>

lemma peek_good:
  assumes "bounded q" "heap_ok q" "heap_size q \<noteq> 0"
  shows "peek q = (Inr (elem_at q 0), q) \<and> (\<forall>i < heap_size q. pv q 0 \<le> pv q i)"
  using assms heap_ok_root_min [OF assms(1,2)]
  by (simp add: peek_def elem_at_def link_at_def)

text \<open>The sweep on a queue that is a heap already.\<close>

lemma store_ok_sweep: "store_ok q \<Longrightarrow> store_ok (sweep q i)"
proof -
  have "store_ok q \<Longrightarrow> store_ok (foldl restoreDown q ns)" for ns
    by (induction ns arbitrary: q) (simp_all add: store_ok_restoreDown)
  then show "store_ok q \<Longrightarrow> store_ok (sweep q i)" by (simp add: sweep_foldl)
qed

lemma sweep_good:
  assumes "good q"
  shows "good (sweep q i) \<and> mset (nodes (sweep q i)) = mset (nodes q)"
proof -
  have k1: "1 \<le> k q" and b: "bounded q" and h: "heap_ok q" and s: "store_ok q"
    using assms by (simp_all add: good_def)
  have "heap_above q 0" using h heap_above_0 [OF b] by blast
  then have "heap_above q (nat (i + 1))" by (simp add: heap_above_def)
  from sweep_heap_above [OF k1 b this]
  have r: "heap_above (sweep q i) 0" "bounded (sweep q i)"
      "mset (nodes (sweep q i)) = mset (nodes q)"
    by simp_all
  have "heap_ok (sweep q i)" using r(1) heap_above_0 [OF r(2)] by blast
  then show ?thesis using r(2,3) k1 store_ok_sweep [OF s] by (simp add: good_def)
qed

text \<open>
  The bulk branch of \<open>enqueueRange\<close>. Each step stores an element at a fresh index and
  writes its node past the nodes of the heap; the size stays, and the sweep that follows
  works on the nodes that were there before.
\<close>

lemma bulk_step_fields [simp]: "k (bulk_step rng q i) = k q"
  by (simp add: bulk_step_def Let_def split_beta)

lemma bulk_step_heap:
  "j < heap_size q \<Longrightarrow>
   prio_at (bulk_step rng q i) j = prio_at q j \<and> link_at (bulk_step rng q i) j = link_at q j"
proof -
  assume j: "j < heap_size q"
  have "(heap_size q + i) * 2 \<noteq> j * 2" "(heap_size q + i) * 2 + 1 \<noteq> j * 2"
       "(heap_size q + i) * 2 \<noteq> j * 2 + 1" "(heap_size q + i) * 2 + 1 \<noteq> j * 2 + 1"
    using j by presburger+
  then show ?thesis
    by (simp add: bulk_step_def Let_def split_beta prio_at_def link_at_def)
qed

lemma elems_get_bulk_step [simp]:
  "elems_get (bulk_step rng q i) key = elems_get (fst (addElem q (element (rng ! i)))) key"
  by (simp add: bulk_step_def Let_def split_beta)

lemma bulk_step_store [simp]:
  "elems_size (bulk_step rng q i) = elems_size (fst (addElem q (element (rng ! i))))"
  "exited_indexes (bulk_step rng q i) = exited_indexes (fst (addElem q (element (rng ! i))))"
  "exited_indexes_count (bulk_step rng q i)
     = exited_indexes_count (fst (addElem q (element (rng ! i))))"
  by (simp_all add: bulk_step_def Let_def split_beta)

lemma bulk_step_same:
  assumes "store_ok q"
  shows "same_nodes q (bulk_step rng q i) \<and> store_ok (bulk_step rng q i)"
proof -
  let ?b = "bulk_step rng q i" and ?q1 = "fst (addElem q (element (rng ! i)))"
  obtain h where h:
      "elems_size q \<le> elems_size ?q1"
      "\<forall>i < heap_size q. link_at q i \<noteq> Some (real h)"
      "exited_indexes ?q1 = exited_indexes q"
      "exited_indexes_count ?q1 \<le> exited_indexes_count q"
      "\<forall>h'. h' \<noteq> h \<longrightarrow> elems_get ?q1 (Some (real h')) = elems_get q (Some (real h'))"
    using addElem_fresh [OF assms, of "element (rng ! i)"] by blast
  have valid: "\<exists>h < elems_size q. link_at q j = Some (real h)" if "j < heap_size q" for j
    using assms that unfolding store_ok_def by blast
  have el: "elem_at ?b j = elem_at q j" if lt: "j < heap_size q" for j
  proof -
    obtain hj where hj: "link_at q j = Some (real hj)" using valid [OF lt] by blast
    then have "hj \<noteq> h" using h(2) lt by auto
    then show ?thesis using hj lt h(5) bulk_step_heap [OF lt, of rng i] by (simp add: elem_at_def)
  qed
  have same: "same_nodes q ?b"
    using el bulk_step_heap [of _ q rng i] by (simp add: same_nodes_def)
  have s1: "\<forall>j < heap_size ?b. \<exists>h' < elems_size ?b. link_at ?b j = Some (real h')"
  proof (intro allI impI)
    fix j assume "j < heap_size ?b"
    then have lt: "j < heap_size q" by simp
    obtain hj where "hj < elems_size q" "link_at q j = Some (real hj)"
      using valid [OF lt] by blast
    then show "\<exists>h' < elems_size ?b. link_at ?b j = Some (real h')"
      using h(1) bulk_step_heap [OF lt, of rng i] by (auto intro!: exI [of _ hj])
  qed
  have s2: "\<forall>i' < heap_size ?b. \<forall>j < heap_size ?b. link_at ?b i' = link_at ?b j \<longrightarrow> i' = j"
    using assms bulk_step_heap [of _ q rng i] unfolding store_ok_def by simp
  have s3: "\<forall>j < exited_indexes_count ?b.
          \<exists>h' < elems_size ?b. js_get (exited_indexes ?b) j = Some (real h')"
  proof (intro allI impI)
    fix j assume "j < exited_indexes_count ?b"
    then have "j < exited_indexes_count q" using h(4) by simp
    then obtain hj where "hj < elems_size q" "js_get (exited_indexes q) j = Some (real hj)"
      using assms unfolding store_ok_def by blast
    then show "\<exists>h' < elems_size ?b. js_get (exited_indexes ?b) j = Some (real h')"
      using h(1,3) by (auto intro!: exI [of _ hj])
  qed
  have s4: "\<forall>i' < exited_indexes_count ?b. \<forall>j < exited_indexes_count ?b.
          js_get (exited_indexes ?b) i' = js_get (exited_indexes ?b) j \<longrightarrow> i' = j"
    using assms h(3,4) unfolding store_ok_def by simp
  have s5: "\<forall>i' < heap_size ?b. \<forall>j < exited_indexes_count ?b.
          link_at ?b i' \<noteq> js_get (exited_indexes ?b) j"
  proof (intro allI impI)
    fix i' j assume "i' < heap_size ?b" "j < exited_indexes_count ?b"
    then have lt: "i' < heap_size q" "j < exited_indexes_count q" using h(4) by simp_all
    then have "link_at q i' \<noteq> js_get (exited_indexes q) j"
      using assms unfolding store_ok_def by blast
    then show "link_at ?b i' \<noteq> js_get (exited_indexes ?b) j"
      using h(3) bulk_step_heap [OF lt(1), of rng i] by simp
  qed
  have "store_ok ?b" using s1 s2 s3 s4 s5 unfolding store_ok_def [of ?b] by blast
  then show ?thesis using same by simp
qed

lemma foldl_bulk_step_same:
  "store_ok q \<Longrightarrow>
   same_nodes q (foldl (bulk_step rng) q ns) \<and> store_ok (foldl (bulk_step rng) q ns)"
proof (induction ns arbitrary: q)
  case Nil
  then show ?case by (simp add: same_nodes_refl)
next
  case (Cons i ns)
  have b: "same_nodes q (bulk_step rng q i)" "store_ok (bulk_step rng q i)"
    using bulk_step_same [OF Cons.prems] by simp_all
  from Cons.IH [OF b(2)] same_nodes_trans [OF b(1)] show ?case by simp
qed

lemma enqueueRange_bulk_good:
  assumes "good q" "\<not> range_is_small (length rng) (heap_size q)"
  shows "\<exists>q'. enqueueRange q rng = Some q' \<and> good q' \<and> mset (nodes q') = mset (nodes q)"
proof -
  let ?l = "foldl (bulk_step rng) q [0 ..< length rng]"
  have s: "store_ok q" and k1: "1 \<le> k q" using assms(1) by (simp_all add: good_def)
  have l: "same_nodes q ?l" "store_ok ?l" using foldl_bulk_step_same [OF s] by simp_all
  have kl: "k ?l = k q" using l(1) by (simp add: same_nodes_def)
  have gl: "good ?l"
    using assms(1) l kl
    by (simp add: good_def same_nodes_bounded [OF l(1)] same_nodes_heap_ok [OF l(1)])
  have "enqueueRange q rng = Some (sweep ?l (sweep_start ?l))"
    using assms(2) kl k1 by (simp add: enqueueRange_def heapify_def)
  then show ?thesis
    using sweep_good [OF gl, of "sweep_start ?l"] same_nodes_nodes [OF l(1)] by simp
qed

lemma enqueueRange_small_good:
  assumes "good q" "range_is_small (length rng) (heap_size q)"
    and "\<forall>p \<in> set rng. priority p < real MAX_SAFE_INTEGER"
    and "heap_size q + length rng \<le> MAX_SAFE_INTEGER"
  shows "\<exists>q'. enqueueRange q rng = Some q' \<and> good q' \<and>
           mset (nodes q')
             = mset (nodes q) + mset (map (\<lambda>p. (Some (priority p), Some (element p))) rng)"
proof -
  have g: "1 \<le> k q" "store_ok q" "bounded q" "heap_ok q" using assms(1) by (simp_all add: good_def)
  have "enqueueRange q rng = Some (enqueue_all q rng)"
    using enqueueRange_small_count [OF assms(2)] by simp
  then show ?thesis
    using enqueue_all_good [OF g assms(3,4)] g(1) by (simp add: good_def)
qed

text \<open>The operations on a good queue, one by one.\<close>

lemma foldl_load_step_store:
  "elems_size (foldl (load_step rng) q ns) = elems_size q \<and>
   exited_indexes_count (foldl (load_step rng) q ns) = exited_indexes_count q"
  by (induction ns arbitrary: q) (simp_all add: load_step_def Let_def)

lemma store_ok_load_pairs: "store_ok (load_pairs rng kk)"
proof -
  let ?ini = "empty_pq\<lparr>k := kk, heap_size := length rng, elems_size := length rng\<rparr> :: 'a pq"
  have l: "link_at (load_pairs rng kk) i = Some (real i)" if "i < length rng" for i
    using load_fold [of "length rng" rng ?ini i] that by (simp add: load_pairs_def Let_def)
  have "elems_size (load_pairs rng kk) = length rng"
       "exited_indexes_count (load_pairs rng kk) = 0"
    by (simp_all add: load_pairs_def Let_def foldl_load_step_store empty_pq_def)
  then show ?thesis using l by (simp add: store_ok_def)
qed

lemma new_PriorityQueue_good:
  assumes "1 \<le> kk" "\<forall>p \<in> set rng. priority p < real MAX_SAFE_INTEGER"
    "length rng \<le> MAX_SAFE_INTEGER"
  shows "\<exists>q. new_PriorityQueue rng kk = Some q \<and> good q \<and>
           mset (nodes q) = mset (map (\<lambda>p. (Some (priority p), Some (element p))) rng)"
proof -
  obtain q where q: "new_PriorityQueue rng kk = Some q" "heap_ok q" "bounded q" "k q = kk"
      "mset (nodes q) = mset (map (\<lambda>p. (Some (priority p), Some (element p))) rng)"
    using constructor_heap_ok [OF assms] by blast
  have "q = sweep (load_pairs rng kk) (sweep_start (load_pairs rng kk))"
    using q(1) assms(1) by (simp add: new_PriorityQueue_def heapify_def)
  moreover have "store_ok (load_pairs rng kk)" by (rule store_ok_load_pairs)
  ultimately have "store_ok q" by (simp add: store_ok_sweep)
  then show ?thesis using q assms(1) by (auto simp: good_def)
qed

lemma enqueue_good:
  assumes "good q" "prio < real MAX_SAFE_INTEGER" "heap_size q < MAX_SAFE_INTEGER"
  shows "good (enqueue q elem prio) \<and>
         mset (nodes (enqueue q elem prio)) = add_mset (Some prio, Some elem) (mset (nodes q))"
proof -
  have g: "1 \<le> k q" "bounded q" "heap_ok q" "store_ok q" using assms(1) by (simp_all add: good_def)
  show ?thesis
    using enqueue_heap_ok [OF g(1,2,3) assms(2,3), of elem] enqueue_nodes [OF g(1,4), of elem prio]
      g(1)
    by (simp add: good_def)
qed

lemma dequeue_good:
  assumes "good q" "heap_size q \<noteq> 0"
  shows "fst (dequeue q) = Inr (elem_at q 0) \<and> (\<forall>i < heap_size q. pv q 0 \<le> pv q i) \<and>
         good (snd (dequeue q)) \<and>
         mset (nodes (snd (dequeue q))) = mset (nodes q) - {#(prio_at q 0, elem_at q 0)#}"
proof -
  have g: "1 \<le> k q" "bounded q" "heap_ok q" "store_ok q" using assms(1) by (simp_all add: good_def)
  have "k (snd (dequeue q)) = k q" using assms(2) by (simp add: dequeue_unfold)
  then show ?thesis
    using dequeue_heap_ok [OF g(1,2,3) assms(2)] dequeue_nodes [OF assms(2)]
      store_ok_dequeue [OF g(4) assms(2)] heap_ok_root_min [OF g(2,3)] g(1)
    by (simp add: good_def)
qed

end
